theory Spec2Isabelle
  imports Main
begin

section \<open>Data model of \<open>src/state/InputGroup.ts\<close>\<close>

text \<open>
  An \<open>Input\<close> (the leaf field) is a collaborator whose class is not part of the
  group module; the group only compares it by identity, reads three attributes from it and
  calls its \<open>reset\<close> and \<open>confirm\<close> methods. An input is therefore an opaque identity.
\<close>

type_synonym input = nat

text \<open>
  Plain JavaScript data: what a leaf holds as its value and what \<open>reset\<close> and
  \<open>confirm\<close> receive as their value tree. An object is the list of its own enumerable
  properties in enumeration order. Numbers are integers here (\<open>NaN\<close> and fractions carry
  no weight in this module, which only tests a value for truthiness and reads properties).
  \<open>Native name\<close> is a function or object that the JavaScript runtime supplies, such as
  the constructor \<open>Object\<close>: a value tree can hold one, and a property read can return one.
\<close>

datatype jsval =
    Undefined
  | Null
  | Bool bool
  | Num int
  | Str string
  | VArr "jsval list"
  | VObj "(string \<times> jsval) list"
  | Native string

text \<open>
  \<open>InputShape\<close>: a structure of inputs without groups (\<open>Input | $InputShapeObject |
  $InputShapeArray\<close>).
\<close>

datatype shape =
    SInput input
  | SArray "shape list"
  | SObject "(string \<times> shape) list"

text \<open>
  \<open>InputGroupContent\<close>: an input, an input group, an array or an object of contents.
  A group is its identity together with its private field \<open>_inputs\<close> of type
  \<open>MaybeConstant<() => TInputs>\<close>: a content, or a function returning one. Such a
  function is a closure over the program state; it is called with the state \<open>'s\<close> of the
  moment of the call. Contents are finite trees: a group whose description returns a
  tree that contains the group itself has no value here (the source recurses without end
  on it).
\<close>

datatype 's content =
    CInput input
  | CGroup nat "'s description"
  | CArray "'s content list"
  | CObject "(string \<times> 's content) list"
and 's description =
    Constant "'s content"
  | Function "'s \<Rightarrow> 's content"

text \<open>The inclusion of \<open>InputShape\<close> in \<open>InputGroupContent\<close>.\<close>

primrec content_of :: "shape \<Rightarrow> 's content" where
  "content_of (SInput i) = CInput i"
| "content_of (SArray xs) = CArray (map content_of xs)"
| "content_of (SObject kvs) = CObject (map (map_prod id content_of) kvs)"

datatype valueProp = PValue | PInputValue | PNormalizedInputValue

datatype exn = TypeError | Thrown string

record reset_args =
  "value" :: jsval

record confirm_args = reset_args +
  "next" :: "bool option"

text \<open>
  The \<open>Input\<close> class as the group uses it: the attribute read \<open>input[valueProp]\<close>, and
  the two methods, which change the state and may throw. \<open>Input_reset\<close> takes the
  argument object \<open>{ value }\<close>; \<open>Input_confirm\<close> takes \<open>{ value, next }\<close>, where
  \<open>next\<close> is the optional request to advance the focus to the next field (the demo calls
  \<open>input.confirm({ next: true })\<close> and \<open>input.confirm()\<close>); \<open>None\<close> is the absent
  property.
\<close>

record 's Input =
  Input_get :: "input \<Rightarrow> valueProp \<Rightarrow> 's \<Rightarrow> jsval"
  Input_reset :: "input \<Rightarrow> reset_args \<Rightarrow> 's \<Rightarrow> 's \<times> exn option"
  Input_confirm :: "input \<Rightarrow> confirm_args \<Rightarrow> 's \<Rightarrow> 's \<times> exn option"

section \<open>The getters \<open>structure\<close> and \<open>inputs\<close>, and \<open>unwrapGroups\<close>\<close>

text \<open>
  \<open>get structure() { const { _inputs } = this;
     return typeof _inputs === "function" ? _inputs() : _inputs; }\<close>

  This is the body of the getter, run in the state \<open>s\<close>. The getter is declared
  \<open>@computed\<close>: what a read of it returns under the reactive host, which may hold the
  result of an earlier run, is \<open>structure_getter\<close> in the section on the host. The
  views defined in this section and the next two are the results of the bodies of the
  getters when every read of \<open>structure\<close> runs its body in the state \<open>s\<close>.
\<close>

definition "structure" :: "'s \<Rightarrow> 's description \<Rightarrow> 's content" where
  "structure s d = (case d of Function f \<Rightarrow> f s | Constant c \<Rightarrow> c)"

text \<open>
  \<open>unwrapGroups\<close> on a value of type \<open>InputShape\<close>: the branch for groups cannot be
  taken, the other three copy the tree.
\<close>

primrec unwrapShape :: "shape \<Rightarrow> shape" where
  "unwrapShape (SInput i) = SInput i"
| "unwrapShape (SArray xs) = SArray (map unwrapShape xs)"
| "unwrapShape (SObject kvs) = SObject (map (map_prod id unwrapShape) kvs)"

text \<open>
  \<open>unwrapGroups\<close> on an \<open>InputGroupContent\<close>. For a group it reads the getter
  \<open>inputs\<close> of that group, which is \<open>unwrapGroups(this.structure)\<close>, and unwraps the
  result once more. The result object of the last branch is filled key by key in the
  order of \<open>for..in\<close>.
\<close>

primrec unwrapGroups :: "'s \<Rightarrow> 's content \<Rightarrow> shape"
  and inputs :: "'s \<Rightarrow> 's description \<Rightarrow> shape" where
  "unwrapGroups s (CGroup g d) = unwrapShape (inputs s d)"
| "unwrapGroups s (CInput i) = SInput i"
| "unwrapGroups s (CArray xs) = SArray (map (unwrapGroups s) xs)"
| "unwrapGroups s (CObject kvs) = SObject (map (map_prod id (unwrapGroups s)) kvs)"
| "inputs s (Constant c) = unwrapGroups s c"
| "inputs s (Function f) = unwrapGroups s (f s)"

section \<open>Flattening\<close>

text \<open>
  \<open>flattenInputs(inputs, buffer = [])\<close> pushes every input of a shape on the buffer and
  returns the buffer.
\<close>

fun flattenInputs :: "shape \<Rightarrow> input list \<Rightarrow> input list" where
  "flattenInputs (SInput i) buffer = buffer @ [i]"
| "flattenInputs (SArray xs) buffer = fold flattenInputs xs buffer"
| "flattenInputs (SObject kvs) buffer = fold (\<lambda>(key, x). flattenInputs x) kvs buffer"

text \<open>
  \<open>flattenStructure(inputs, buffer = [])\<close> pushes inputs and groups, and does not
  look into a group.
\<close>

fun flattenStructure :: "'s content \<Rightarrow> 's content list \<Rightarrow> 's content list" where
  "flattenStructure (CGroup g d) buffer = buffer @ [CGroup g d]"
| "flattenStructure (CInput i) buffer = buffer @ [CInput i]"
| "flattenStructure (CArray xs) buffer = fold flattenStructure xs buffer"
| "flattenStructure (CObject kvs) buffer = fold (\<lambda>(key, x). flattenStructure x) kvs buffer"

definition flattedInputs :: "'s \<Rightarrow> 's description \<Rightarrow> input list" where
  "flattedInputs s d = flattenInputs (inputs s d) []"

definition flattenedStructure :: "'s \<Rightarrow> 's description \<Rightarrow> 's content list" where
  "flattenedStructure s d = flattenStructure (structure s d) []"

section \<open>Value extraction\<close>

text \<open>
  \<open>getValueFromShape(inputs, valueProp)\<close>: the attribute of an input, an array of the
  values of the elements, or an object with the value of each key.
\<close>

fun getValueFromShape :: "'s Input \<Rightarrow> 's \<Rightarrow> shape \<Rightarrow> valueProp \<Rightarrow> jsval" where
  "getValueFromShape I s (SInput i) valueProp = Input_get I i valueProp s"
| "getValueFromShape I s (SArray xs) valueProp =
     VArr (map (\<lambda>input. getValueFromShape I s input valueProp) xs)"
| "getValueFromShape I s (SObject kvs) valueProp =
     VObj (map (\<lambda>(key, x). (key, getValueFromShape I s x valueProp)) kvs)"

definition value' :: "'s Input \<Rightarrow> 's \<Rightarrow> 's description \<Rightarrow> jsval" where
  "value' I s d = getValueFromShape I s (inputs s d) PValue"

definition inputValue :: "'s Input \<Rightarrow> 's \<Rightarrow> 's description \<Rightarrow> jsval" where
  "inputValue I s d = getValueFromShape I s (inputs s d) PInputValue"

definition normalizedInputValue :: "'s Input \<Rightarrow> 's \<Rightarrow> 's description \<Rightarrow> jsval" where
  "normalizedInputValue I s d = getValueFromShape I s (inputs s d) PNormalizedInputValue"

section \<open>Property reads on a value tree\<close>

text \<open>\<open>String(index)\<close>: the decimal numeral of an array index.\<close>

fun dec :: "nat \<Rightarrow> string" where
  "dec n = (if n < 10 then [char_of (48 + n)] else dec (n div 10) @ [char_of (48 + n mod 10)])"

declare dec.simps [simp del]

text \<open>
  The own properties of a value as data: the elements and the length of an array, the
  characters and the length of a string, the entries of an object.
\<close>

fun own_props :: "jsval \<Rightarrow> (string \<times> jsval) list" where
  "own_props (VArr xs) = zip (map dec [0..<length xs]) xs @ [(''length'', Num (int (length xs)))]"
| "own_props (Str cs) =
     zip (map dec [0..<length cs]) (map (\<lambda>c. Str [c]) cs) @ [(''length'', Num (int (length cs)))]"
| "own_props (VObj kvs) = kvs"
| "own_props _ = []"

text \<open>
  What a value has beyond its own data properties comes from the JavaScript runtime: the
  members it inherits along its prototype chain (\<open>constructor\<close>, \<open>toString\<close>,
  \<open>__proto__\<close>, the methods of arrays and strings, ...) and the properties of the
  built-in functions and objects. The runtime is a parameter of the model: \<open>R v key\<close>
  is the member that the runtime supplies for \<open>v\<close> under \<open>key\<close>, if any.
\<close>

type_synonym runtime = "jsval \<Rightarrow> string \<Rightarrow> jsval option"

text \<open>
  \<open>value[key]\<close> on a value other than \<open>undefined\<close> and \<open>null\<close>: the own property,
  else the member that the runtime supplies, else \<open>undefined\<close>.
\<close>

definition member :: "runtime \<Rightarrow> jsval \<Rightarrow> string \<Rightarrow> jsval" where
  "member R v key =
     (case map_of (own_props v) key of
        Some w \<Rightarrow> w
      | None \<Rightarrow> (case R v key of Some w \<Rightarrow> w | None \<Rightarrow> Undefined))"

text \<open>
  \<open>value[key]\<close>. Reading a property of \<open>undefined\<close> or \<open>null\<close> throws a TypeError
  (\<open>None\<close>).
\<close>

definition get_prop :: "runtime \<Rightarrow> jsval \<Rightarrow> string \<Rightarrow> jsval option" where
  "get_prop R v key =
     (case v of
        Undefined \<Rightarrow> None
      | Null \<Rightarrow> None
      | _ \<Rightarrow> Some (member R v key))"

fun truthy :: "jsval \<Rightarrow> bool" where
  "truthy Undefined = False"
| "truthy Null = False"
| "truthy (Bool b) = b"
| "truthy (Num n) = (n \<noteq> 0)"
| "truthy (Str cs) = (cs \<noteq> [])"
| "truthy (VArr xs) = True"
| "truthy (VObj kvs) = True"
| "truthy (Native name) = True"

text \<open>\<open>value && value[key]\<close>\<close>

definition and_prop :: "runtime \<Rightarrow> jsval \<Rightarrow> string \<Rightarrow> jsval option" where
  "and_prop R v key = (if truthy v then get_prop R v key else Some v)"

section \<open>Batch reset and confirm\<close>

text \<open>
  A statement that changes the state and may throw returns the state it leaves and the
  exception, if any. \<open>each body xs\<close> runs \<open>body key x\<close> for the entries of \<open>xs\<close>
  in order (the callback of \<open>Array.map\<close> with its index, the body of \<open>for..in\<close> with
  its key) and stops at the first exception, which it passes on with the state reached.
\<close>

fun each :: "('k \<Rightarrow> 'a \<Rightarrow> 's \<Rightarrow> 's \<times> exn option) \<Rightarrow> ('k \<times> 'a) list \<Rightarrow> 's \<Rightarrow> 's \<times> exn option" where
  "each body [] s = (s, None)"
| "each body ((key, x) # rest) s =
     (case body key x s of
        (s', None) \<Rightarrow> each body rest s'
      | (s', Some e) \<Rightarrow> (s', Some e))"

text \<open>
  The call \<open>f(input, value && value[key])\<close>: the argument is evaluated first, then
  \<open>f\<close> runs on it.
\<close>

definition call_with ::
    "runtime \<Rightarrow> jsval \<Rightarrow> string \<Rightarrow> (jsval \<Rightarrow> 's \<Rightarrow> 's \<times> exn option) \<Rightarrow> 's \<Rightarrow> 's \<times> exn option" where
  "call_with R v key f s =
     (case and_prop R v key of None \<Rightarrow> (s, Some TypeError) | Some w \<Rightarrow> f w s)"

text \<open>
  \<open>resetShape(inputs, value)\<close>. The second function is the branch for a group,
  \<open>resetShape(inputs.structure, value)\<close>, which evaluates the description of the group
  in the state reached: the read of \<open>structure\<close> runs the body of the getter. The same
  walk with the reads of \<open>structure\<close> made through the reactive host is
  \<open>resetShape_memo\<close> in the section on the host.
\<close>

primrec resetShape :: "runtime \<Rightarrow> 's Input \<Rightarrow> 's content \<Rightarrow> jsval \<Rightarrow> 's \<Rightarrow> 's \<times> exn option"
  and resetStructure :: "runtime \<Rightarrow> 's Input \<Rightarrow> 's description \<Rightarrow> jsval \<Rightarrow> 's \<Rightarrow> 's \<times> exn option" where
  "resetShape R I (CInput i) = (\<lambda>v. Input_reset I i \<lparr>value = v\<rparr>)"
| "resetShape R I (CGroup g d) = (\<lambda>v. resetStructure R I d v)"
| "resetShape R I (CArray xs) =
     (\<lambda>v. each (\<lambda>index. call_with R v (dec index)) (enumerate 0 (map (resetShape R I) xs)))"
| "resetShape R I (CObject kvs) =
     (\<lambda>v. each (\<lambda>key. call_with R v key) (map (map_prod id (resetShape R I)) kvs))"
| "resetStructure R I (Constant c) = (\<lambda>v s. resetShape R I c v s)"
| "resetStructure R I (Function f) = (\<lambda>v s. resetShape R I (f s) v s)"

text \<open>\<open>confirmShape(inputs, value)\<close>, with \<open>inputs.confirm({ value })\<close> at an input.\<close>

primrec confirmShape :: "runtime \<Rightarrow> 's Input \<Rightarrow> 's content \<Rightarrow> jsval \<Rightarrow> 's \<Rightarrow> 's \<times> exn option"
  and confirmStructure :: "runtime \<Rightarrow> 's Input \<Rightarrow> 's description \<Rightarrow> jsval \<Rightarrow> 's \<Rightarrow> 's \<times> exn option" where
  "confirmShape R I (CInput i) = (\<lambda>v. Input_confirm I i \<lparr>value = v, next = None\<rparr>)"
| "confirmShape R I (CGroup g d) = (\<lambda>v. confirmStructure R I d v)"
| "confirmShape R I (CArray xs) =
     (\<lambda>v. each (\<lambda>index. call_with R v (dec index)) (enumerate 0 (map (confirmShape R I) xs)))"
| "confirmShape R I (CObject kvs) =
     (\<lambda>v. each (\<lambda>key. call_with R v key) (map (map_prod id (confirmShape R I)) kvs))"
| "confirmStructure R I (Constant c) = (\<lambda>v s. confirmShape R I c v s)"
| "confirmStructure R I (Function f) = (\<lambda>v s. confirmShape R I (f s) v s)"

text \<open>
  The bodies of the methods of the group. \<open>args && args.value\<close> is \<open>undefined\<close> when
  no argument object is given. The methods as actions under the reactive host are
  \<open>reset_action\<close> and \<open>confirm_action\<close>.
\<close>

definition args_value :: "reset_args option \<Rightarrow> jsval" where
  "args_value args = (case args of None \<Rightarrow> Undefined | Some a \<Rightarrow> value a)"

definition reset :: "runtime \<Rightarrow> 's Input \<Rightarrow> 's description \<Rightarrow> reset_args option \<Rightarrow> 's \<Rightarrow> 's \<times> exn option" where
  "reset R I d args s = resetShape R I (structure s d) (args_value args) s"

definition confirm :: "runtime \<Rightarrow> 's Input \<Rightarrow> 's description \<Rightarrow> reset_args option \<Rightarrow> 's \<Rightarrow> 's \<times> exn option" where
  "confirm R I d args s = confirmShape R I (structure s d) (args_value args) s"

section \<open>The reactive host: \<open>@computed\<close> and \<open>@action\<close>\<close>

text \<open>
  Modelled from the spec: the getters of the class are declared \<open>@computed\<close> and its two
  methods \<open>@action\<close>; both decorators belong to the reactive library, which is not part
  of this module. The library is the reactive host of the specification, which provides
  "a derivation primitive that re-runs a computation only when its read set changed since
  the last run and caches the result for the current access generation". The host is a
  parameter of the model. \<open>memoizes h g\<close> says whether the host holds on to the result
  of the getter \<open>structure\<close> of the group \<open>g\<close> in the present access generation (the
  getter is observed, or it is read within a batch). \<open>read_set_changed h g w0 w\<close> says
  whether something that the run of the description of \<open>g\<close> in the state \<open>w0\<close> read
  through the host has another value in the state \<open>w\<close>; state that a description
  reads but the host does not track never counts as a change.
\<close>

record 'w host =
  memoizes :: "nat \<Rightarrow> bool"
  read_set_changed :: "nat \<Rightarrow> 'w \<Rightarrow> 'w \<Rightarrow> bool"

text \<open>
  The state of the program under the host: \<open>world\<close>, the state of the inputs and of
  whatever else the descriptions read, and the bookkeeping of the host for each group:
  \<open>last_run\<close>, the state in which the body of the getter \<open>structure\<close> of the group
  last ran, when the host holds its result (the result is the tree that the description
  gives in that state), and \<open>runs\<close>, the number of times the body has run. With a
  description that is a function, each run of the body is one call of the function.
\<close>

record 'w reactive =
  world :: 'w
  last_run :: "nat \<Rightarrow> 'w option"
  runs :: "nat \<Rightarrow> nat"

text \<open>
  A read of \<open>structure\<close> of the group \<open>g\<close> is a hit when the host holds a result for
  the group and the read set of the run that gave it has not changed. \<open>run_world\<close> is
  the state whose tree the read returns: on a hit the state of the last run, otherwise
  the present state, in which the body runs now. \<open>remember\<close> is the bookkeeping of the
  read.
\<close>

definition hit :: "'w host \<Rightarrow> nat \<Rightarrow> 'w reactive \<Rightarrow> bool" where
  "hit h g st =
     (case last_run st g of
        Some w0 \<Rightarrow> memoizes h g \<and> \<not> read_set_changed h g w0 (world st)
      | None \<Rightarrow> False)"

definition run_world :: "'w host \<Rightarrow> nat \<Rightarrow> 'w reactive \<Rightarrow> 'w" where
  "run_world h g st =
     (case last_run st g of
        Some w0 \<Rightarrow> if memoizes h g \<and> \<not> read_set_changed h g w0 (world st) then w0 else world st
      | None \<Rightarrow> world st)"

definition remember :: "'w host \<Rightarrow> nat \<Rightarrow> 'w reactive \<Rightarrow> 'w reactive" where
  "remember h g st =
     st\<lparr>last_run := (last_run st)(g := if memoizes h g then Some (run_world h g st) else None),
        runs := (runs st)(g := if hit h g st then runs st g else Suc (runs st g))\<rparr>"










text \<open>
  \<open>@action reset\<close> and \<open>@action confirm\<close> under the host: \<open>resetShape\<close> and
  \<open>confirmShape\<close> where every read of \<open>structure\<close>, of the group and of each nested
  group, goes through the getter. \<open>on_world\<close> is a call on an input in the state under
  the host.
\<close>

definition on_world :: "('w \<Rightarrow> 'w \<times> exn option) \<Rightarrow> 'w reactive \<Rightarrow> 'w reactive \<times> exn option" where
  "on_world call st = (case call (world st) of (w, r) \<Rightarrow> (st\<lparr>world := w\<rparr>, r))"

primrec resetShape_memo ::
    "'w host \<Rightarrow> runtime \<Rightarrow> 'w Input \<Rightarrow> 'w content \<Rightarrow> jsval \<Rightarrow> 'w reactive \<Rightarrow> 'w reactive \<times> exn option"
  and resetStructure_memo ::
    "'w host \<Rightarrow> runtime \<Rightarrow> 'w Input \<Rightarrow> 'w description \<Rightarrow> nat \<Rightarrow> jsval \<Rightarrow> 'w reactive \<Rightarrow> 'w reactive \<times> exn option" where
  "resetShape_memo h R I (CInput i) = (\<lambda>v. on_world (Input_reset I i \<lparr>value = v\<rparr>))"
| "resetShape_memo h R I (CGroup g d) = (\<lambda>v. resetStructure_memo h R I d g v)"
| "resetShape_memo h R I (CArray xs) =
     (\<lambda>v. each (\<lambda>index. call_with R v (dec index)) (enumerate 0 (map (resetShape_memo h R I) xs)))"
| "resetShape_memo h R I (CObject kvs) =
     (\<lambda>v. each (\<lambda>key. call_with R v key) (map (map_prod id (resetShape_memo h R I)) kvs))"
| "resetStructure_memo h R I (Constant c) = (\<lambda>g v st. resetShape_memo h R I c v (remember h g st))"
| "resetStructure_memo h R I (Function f) =
     (\<lambda>g v st. resetShape_memo h R I (f (run_world h g st)) v (remember h g st))"

primrec confirmShape_memo ::
    "'w host \<Rightarrow> runtime \<Rightarrow> 'w Input \<Rightarrow> 'w content \<Rightarrow> jsval \<Rightarrow> 'w reactive \<Rightarrow> 'w reactive \<times> exn option"
  and confirmStructure_memo ::
    "'w host \<Rightarrow> runtime \<Rightarrow> 'w Input \<Rightarrow> 'w description \<Rightarrow> nat \<Rightarrow> jsval \<Rightarrow> 'w reactive \<Rightarrow> 'w reactive \<times> exn option" where
  "confirmShape_memo h R I (CInput i) = (\<lambda>v. on_world (Input_confirm I i \<lparr>value = v, next = None\<rparr>))"
| "confirmShape_memo h R I (CGroup g d) = (\<lambda>v. confirmStructure_memo h R I d g v)"
| "confirmShape_memo h R I (CArray xs) =
     (\<lambda>v. each (\<lambda>index. call_with R v (dec index)) (enumerate 0 (map (confirmShape_memo h R I) xs)))"
| "confirmShape_memo h R I (CObject kvs) =
     (\<lambda>v. each (\<lambda>key. call_with R v key) (map (map_prod id (confirmShape_memo h R I)) kvs))"
| "confirmStructure_memo h R I (Constant c) = (\<lambda>g v st. confirmShape_memo h R I c v (remember h g st))"
| "confirmStructure_memo h R I (Function f) =
     (\<lambda>g v st. confirmShape_memo h R I (f (run_world h g st)) v (remember h g st))"

definition reset_action ::
    "'w host \<Rightarrow> runtime \<Rightarrow> 'w Input \<Rightarrow> nat \<Rightarrow> 'w description \<Rightarrow> reset_args option
      \<Rightarrow> 'w reactive \<Rightarrow> 'w reactive \<times> exn option" where
  "reset_action h R I g d args st = resetStructure_memo h R I d g (args_value args) st"

definition confirm_action ::
    "'w host \<Rightarrow> runtime \<Rightarrow> 'w Input \<Rightarrow> nat \<Rightarrow> 'w description \<Rightarrow> reset_args option
      \<Rightarrow> 'w reactive \<Rightarrow> 'w reactive \<times> exn option" where
  "confirm_action h R I g d args st = confirmStructure_memo h R I d g (args_value args) st"

section \<open>Reference notions of the specification\<close>

text \<open>
  The inputs obtainable by recursively unwrapping a content through arrays, objects and
  nested groups, a group being unwrapped to its structure in the state \<open>s\<close>.
\<close>

inductive reaches :: "'s \<Rightarrow> 's content \<Rightarrow> input \<Rightarrow> bool" for s :: 's where
  at_input: "reaches s (CInput i) i"
| in_array: "x \<in> set xs \<Longrightarrow> reaches s x i \<Longrightarrow> reaches s (CArray xs) i"
| in_object: "(key, x) \<in> set kvs \<Longrightarrow> reaches s x i \<Longrightarrow> reaches s (CObject kvs) i"
| in_group: "reaches s (structure s d) i \<Longrightarrow> reaches s (CGroup g d) i"

text \<open>A content without groups: inputs, arrays and objects only.\<close>

fun group_free :: "'s content \<Rightarrow> bool" where
  "group_free (CInput i) = True"
| "group_free (CGroup g d) = False"
| "group_free (CArray xs) = list_all group_free xs"
| "group_free (CObject kvs) = list_all (\<lambda>(key, x). group_free x) kvs"

text \<open>
  A value tree mirrors a shape for an attribute \<open>attr\<close> of the inputs: an input is
  mirrored by its attribute, an array by an array of the same length whose elements
  mirror its elements, an object by an object with the same keys in the same order whose
  values mirror its values.
\<close>

fun mirrors :: "(input \<Rightarrow> jsval) \<Rightarrow> shape \<Rightarrow> jsval \<Rightarrow> bool" where
  "mirrors attr (SInput i) v = (v = attr i)"
| "mirrors attr (SArray xs) (VArr vs) = list_all2 (mirrors attr) xs vs"
| "mirrors attr (SObject kvs) (VObj ws) =
     list_all2 (\<lambda>(key, x) (key', w). key' = key \<and> mirrors attr x w) kvs ws"
| "mirrors attr _ _ = False"


definition nested_group :: "unit description" where
  "nested_group =
     Constant (CArray [CInput 1, CGroup 7 (Function (\<lambda>u. CObject [(''a'', CInput 2)]))])"


text \<open>
  The same descent, except that a falsy value met on the way (\<open>undefined\<close>, \<open>null\<close>,
  \<open>false\<close>, \<open>0\<close>, \<open>""\<close>) ends it and is itself the result.
\<close>

fun passed :: "runtime \<Rightarrow> jsval \<Rightarrow> string list \<Rightarrow> jsval" where
  "passed R v [] = v"
| "passed R v (key # path) = (if truthy v then passed R (member R v key) path else v)"

text \<open>
  \<open>for_each_leaf act c path\<close> visits the inputs of the content \<open>c\<close>, which lies at
  \<open>path\<close>, in traversal order, a group being replaced by its structure in the state in
  which it is reached, and runs \<open>act\<close> on the path of each input and the input. It stops
  at the first exception.
\<close>

primrec for_each_leaf ::
    "(string list \<Rightarrow> input \<Rightarrow> 's \<Rightarrow> 's \<times> exn option) \<Rightarrow> 's content \<Rightarrow> string list \<Rightarrow> 's \<Rightarrow> 's \<times> exn option"
  and for_each_leaf_of ::
    "(string list \<Rightarrow> input \<Rightarrow> 's \<Rightarrow> 's \<times> exn option) \<Rightarrow> 's description \<Rightarrow> string list \<Rightarrow> 's \<Rightarrow> 's \<times> exn option" where
  "for_each_leaf act (CInput i) = (\<lambda>path. act path i)"
| "for_each_leaf act (CGroup g d) = (\<lambda>path. for_each_leaf_of act d path)"
| "for_each_leaf act (CArray xs) =
     (\<lambda>path. each (\<lambda>index visit. visit (path @ [dec index])) (enumerate 0 (map (for_each_leaf act) xs)))"
| "for_each_leaf act (CObject kvs) =
     (\<lambda>path. each (\<lambda>key visit. visit (path @ [key])) (map (map_prod id (for_each_leaf act)) kvs))"
| "for_each_leaf_of act (Constant c) = (\<lambda>path s. for_each_leaf act c path s)"
| "for_each_leaf_of act (Function f) = (\<lambda>path s. for_each_leaf act (f s) path s)"

text \<open>
  The inputs of a content in traversal order, each with its path from the root: the keys
  and indices under which the traversal meets it (an index is the key \<open>dec index\<close>; a
  nested group adds no step to the path). A group stands for the tree that its
  description gives in the state \<open>s\<close>. The list is built by concatenation, without the
  loop \<open>each\<close>.
\<close>

primrec leaves :: "'s \<Rightarrow> 's content \<Rightarrow> string list \<Rightarrow> (string list \<times> input) list"
  and leaves_of :: "'s \<Rightarrow> 's description \<Rightarrow> string list \<Rightarrow> (string list \<times> input) list" where
  "leaves s (CInput i) = (\<lambda>path. [(path, i)])"
| "leaves s (CGroup g d) = (\<lambda>path. leaves_of s d path)"
| "leaves s (CArray xs) =
     (\<lambda>path. concat (map (\<lambda>(index, below). below (path @ [dec index])) (enumerate 0 (map (leaves s) xs))))"
| "leaves s (CObject kvs) =
     (\<lambda>path. concat (map (\<lambda>(key, below). below (path @ [key])) (map (map_prod id (leaves s)) kvs)))"
| "leaves_of s (Constant c) = (\<lambda>path. leaves s c path)"
| "leaves_of s (Function f) = (\<lambda>path. leaves s (f s) path)"

text \<open>
  A content is steady when every description function in it returns the same tree in
  every state, and that tree is steady: the calls that a batch makes on the inputs do not
  change the tree that the batch walks. A content without description functions is
  steady.
\<close>

primrec steady :: "'s content \<Rightarrow> bool"
  and steady_of :: "'s description \<Rightarrow> bool" where
  "steady (CInput i) = True"
| "steady (CGroup g d) = steady_of d"
| "steady (CArray xs) = list_all (\<lambda>b. b) (map steady xs)"
| "steady (CObject kvs) = list_all snd (map (map_prod id steady) kvs)"
| "steady_of (Constant c) = steady c"
| "steady_of (Function f) = ((\<forall>s. steady (f s)) \<and> (\<forall>s t. f s = f t))"

text \<open>
  \<open>run_leaves act ls\<close> runs \<open>act\<close> on the listed inputs one after the other, each in
  the state that the one before left. The first exception ends the run: it is the
  outcome, together with the state in which the throwing call left the program, and the
  inputs listed after it are not touched.
\<close>

fun run_leaves ::
    "(string list \<Rightarrow> input \<Rightarrow> 's \<Rightarrow> 's \<times> exn option) \<Rightarrow> (string list \<times> input) list \<Rightarrow> 's \<Rightarrow> 's \<times> exn option" where
  "run_leaves act [] s = (s, None)"
| "run_leaves act ((path, i) # rest) s =
     (case act path i s of
        (t, None) \<Rightarrow> run_leaves act rest t
      | (t, Some e) \<Rightarrow> (t, Some e))"

text \<open>
  A content is transparent for a host when, for every description function in it, a
  result that the host holds is the tree that a run in the present state gives: whenever
  the host reports no change of the read set between two states, the function returns
  the same tree in both. Every content is transparent for a host that holds no results,
  and a steady content is transparent for every host.
\<close>

primrec transparent :: "'w host \<Rightarrow> 'w content \<Rightarrow> bool"
  and transparent_of :: "'w host \<Rightarrow> 'w description \<Rightarrow> nat \<Rightarrow> bool" where
  "transparent h (CInput i) = True"
| "transparent h (CGroup g d) = transparent_of h d g"
| "transparent h (CArray xs) = list_all (\<lambda>b. b) (map (transparent h) xs)"
| "transparent h (CObject kvs) = list_all snd (map (map_prod id (transparent h)) kvs)"
| "transparent_of h (Constant c) = (\<lambda>g. transparent h c)"
| "transparent_of h (Function f) =
     (\<lambda>g. (\<forall>w. transparent h (f w))
          \<and> (memoizes h g \<longrightarrow> (\<forall>w0 w. \<not> read_set_changed h g w0 w \<longrightarrow> f w0 = f w)))"

text \<open>
  A recording \<open>Input\<close> class. Its state is the list of the calls made so far; \<open>reset\<close>
  and \<open>confirm\<close> append the call with the argument object they received, and throw what
  \<open>throws\<close> says for the calls made before and this call. The state of any program is
  determined by the calls made on it, so a description or a failure that depends on the
  state can be given as one that depends on this list.
\<close>

datatype call = ResetCall input reset_args | ConfirmCall input confirm_args

definition recorder :: "(call list \<Rightarrow> call \<Rightarrow> exn option) \<Rightarrow> call list Input" where
  "recorder throws =
     \<lparr>Input_get = (\<lambda>i p log. Undefined),
      Input_reset = (\<lambda>i a log. (log @ [ResetCall i a], throws log (ResetCall i a))),
      Input_confirm = (\<lambda>i a log. (log @ [ConfirmCall i a], throws log (ConfirmCall i a)))\<rparr>"

text \<open>
  \<open>stops_at throws log calls r\<close>: made one after the other from \<open>log\<close>, every call of
  \<open>calls\<close> returns normally, except that the last one may throw; \<open>r\<close> is the exception
  of the last call, or \<open>None\<close> when no call throws.
\<close>

fun stops_at :: "(call list \<Rightarrow> call \<Rightarrow> exn option) \<Rightarrow> call list \<Rightarrow> call list \<Rightarrow> exn option \<Rightarrow> bool" where
  "stops_at throws log [] r = (r = None)"
| "stops_at throws log (c # cs) r =
     (case throws log c of
        None \<Rightarrow> stops_at throws (log @ [c]) cs r
      | Some e \<Rightarrow> cs = [] \<and> r = Some e)"

text \<open>A call of \<open>confirm\<close> whose argument object has no \<open>next\<close> property.\<close>

fun plain_confirm :: "call \<Rightarrow> bool" where
  "plain_confirm (ConfirmCall i a) = (next a = None)"
| "plain_confirm (ResetCall i a) = False"


text \<open>
  A sample runtime: the members that every value inherits from \<open>Object.prototype\<close>.
  A JavaScript engine supplies these and more (the methods of arrays, strings and
  numbers, the properties of the built-in functions). The theorems hold for every
  runtime; the sample serves the runs on sample inputs.
\<close>

fun constructor_name :: "jsval \<Rightarrow> string" where
  "constructor_name (VObj kvs) = ''Object''"
| "constructor_name (VArr xs) = ''Array''"
| "constructor_name (Str cs) = ''String''"
| "constructor_name (Num n) = ''Number''"
| "constructor_name (Bool b) = ''Boolean''"
| "constructor_name (Native name) = ''Function''"
| "constructor_name Undefined = []"
| "constructor_name Null = []"

definition sample_runtime :: runtime where
  "sample_runtime v key =
     (if key = ''constructor'' then Some (Native (constructor_name v))
      else if key \<in> set [''toString'', ''toLocaleString'', ''valueOf'', ''hasOwnProperty'',
                         ''isPrototypeOf'', ''propertyIsEnumerable'']
      then Some (Native key)
      else None)"

text \<open>
  Sample inputs that never throw, and sample inputs of which input 1 rejects a reset or
  a confirmation without a value. \<open>example_group\<close> is the group over
  \<open>{a: input 1, b: {c: input 2}}\<close>.
\<close>

definition never :: "call list \<Rightarrow> call \<Rightarrow> exn option" where
  "never log c = None"

definition input1_throws :: "call list \<Rightarrow> call \<Rightarrow> exn option" where
  "input1_throws log c =
     (if c = ConfirmCall 1 \<lparr>value = Undefined, next = None\<rparr> \<or> c = ResetCall 1 \<lparr>value = Undefined\<rparr>
      then Some (Thrown ''invalid'') else None)"

definition example_group :: "call list description" where
  "example_group = Constant (CObject [(''a'', CInput 1), (''b'', CObject [(''c'', CInput 2)])])"

text \<open>
  Further samples: inputs of which input 3 rejects a reset or a confirmation without a
  value; the group over the array \<open>[input 1, input 3, input 4]\<close>; the group over
  \<open>[input 1, G]\<close> where \<open>G\<close> is a group whose description is a function returning
  \<open>{a: input 2}\<close>; and the group over \<open>{constructor: input 1}\<close>.
\<close>

definition input3_throws :: "call list \<Rightarrow> call \<Rightarrow> exn option" where
  "input3_throws log c =
     (if c = ResetCall 3 \<lparr>value = Undefined\<rparr> \<or> c = ConfirmCall 3 \<lparr>value = Undefined, next = None\<rparr>
      then Some (Thrown ''boom'') else None)"

definition array_group :: "call list description" where
  "array_group = Constant (CArray [CInput 1, CInput 3, CInput 4])"

definition recorded_nested_group :: "call list description" where
  "recorded_nested_group =
     Constant (CArray [CInput 1, CGroup 7 (Function (\<lambda>log. CObject [(''a'', CInput 2)]))])"

definition constructor_group :: "call list description" where
  "constructor_group = Constant (CObject [(''constructor'', CInput 1)])"



definition observed :: "'w host" where
  "observed = \<lparr>memoizes = (\<lambda>g. True), read_set_changed = (\<lambda>g w0 w. False)\<rparr>"

definition first_use :: "'w \<Rightarrow> 'w reactive" where
  "first_use w = \<lparr>world = w, last_run = (\<lambda>g. None), runs = (\<lambda>g. 0)\<rparr>"




section \<open>Properties of collapsing and flattening\<close>

inductive_simps reaches_CInput: "reaches s (CInput j) i"
inductive_simps reaches_CArray: "reaches s (CArray xs) i"
inductive_simps reaches_CObject: "reaches s (CObject kvs) i"
inductive_simps reaches_CGroup: "reaches s (CGroup g d) i"

lemma map_values_id:
  assumes "\<And>key x. (key, x) \<in> set kvs \<Longrightarrow> f x = x"
  shows "map (map_prod id f) kvs = kvs"
proof (rule map_idI)
  fix kx assume mem: "kx \<in> set kvs"
  obtain k x where kx: "kx = (k, x)" by (cases kx)
  show "map_prod id f kx = kx" using assms [of k x] mem by (simp add: kx)
qed

lemma unwrapShape_id: "unwrapShape sh = sh"
proof (induction sh)
  case (SObject kvs)
  have "map (map_prod id unwrapShape) kvs = kvs"
    by (rule map_values_id) (use SObject in auto)
  then show ?case by simp
qed (simp_all add: map_idI)

lemma inputs_structure: "inputs s d = unwrapGroups s (structure s d)"
  by (cases d) (simp_all add: structure_def)

text \<open>The equations of \<open>unwrapGroups\<close> as the source writes them.\<close>

lemma unwrapGroups_source:
  "unwrapGroups s (CGroup g d) = unwrapShape (unwrapGroups s (structure s d))"
  "unwrapGroups s (CInput i) = SInput i"
  "unwrapGroups s (CArray xs) = SArray (map (unwrapGroups s) xs)"
  "unwrapGroups s (CObject kvs) = SObject (map (\<lambda>(key, x). (key, unwrapGroups s x)) kvs)"
  by (simp_all add: inputs_structure map_prod_def)

lemma content_of_unwrapGroups:
  "group_free c \<Longrightarrow> content_of (unwrapGroups s c) = (c :: 's content)"
proof (induction c rule: group_free.induct)
  case (1 i) show ?case by simp
next
  case (2 g d) then show ?case by simp
next
  case (3 xs)
  have "map (content_of \<circ> unwrapGroups s) xs = xs"
    by (rule map_idI) (use 3 in \<open>simp add: list_all_iff\<close>)
  then show ?case by simp
next
  case (4 kvs)
  have "map (map_prod id (\<lambda>x. content_of (unwrapGroups s x))) kvs = kvs"
  proof (rule map_values_id)
    fix key x assume mem: "(key, x) \<in> set kvs"
    then have "group_free x" using 4(2) by (auto simp: list_all_iff)
    then show "content_of (unwrapGroups s x) = x" using 4(1) mem by blast
  qed
  then show ?case by (simp add: comp_def prod.map_comp id_def)
qed

text \<open>
  C9. Collapsing a tree without groups returns a structurally equal tree: the same
  containers, keys and order, and the same inputs at every position. A tree without
  groups is a shape: a content without groups is the image of the shape it collapses
  to. The theorem covers the call of \<open>unwrapGroups\<close> on such a content and the second
  pass that \<open>unwrapGroups\<close> makes over the collapsed \<open>inputs\<close> of a nested group.
\<close>

theorem unwrapGroups_collapsed:
  "unwrapGroups s (content_of sh) = sh
   \<and> unwrapShape sh = sh
   \<and> (group_free c \<longrightarrow> content_of (unwrapGroups s c) = c)"
proof (intro conjI impI)
  show "unwrapGroups s (content_of sh) = sh"
  proof (induction sh)
    case (SObject kvs)
    have "map (map_prod id (unwrapGroups s) \<circ> map_prod id content_of) kvs = kvs"
      by (intro map_idI) (use SObject in auto)
    then show ?case by simp
  qed (simp_all add: map_idI)
  show "unwrapShape sh = sh" by (rule unwrapShape_id)
  show "content_of (unwrapGroups s c) = c" if "group_free c"
    using that by (rule content_of_unwrapGroups)
qed

text \<open>The tree \<open>[input 1, {a: input 2}]\<close> has no group and collapses to itself.\<close>

theorem unwrapGroups_collapsed_witness:
  "group_free (CArray [CInput 1, CObject [(''a'', CInput 2)]])
   \<and> content_of (unwrapGroups () (CArray [CInput 1, CObject [(''a'', CInput 2)]]))
       = CArray [CInput 1, CObject [(''a'', CInput 2)]]"
  using unwrapGroups_collapsed [of "()" _ "CArray [CInput 1, CObject [(''a'', CInput 2)]]"]
  by simp

lemma fold_buffer:
  assumes "\<And>x b. x \<in> set xs \<Longrightarrow> f x b = b @ f x []"
  shows "fold f xs b = b @ fold f xs []"
  using assms
proof (induction xs arbitrary: b)
  case Nil show ?case by simp
next
  case (Cons x xs)
  have step: "fold f xs c = c @ fold f xs []" for c
    by (rule Cons.IH, rule Cons.prems, simp)
  have "fold f (x # xs) b = fold f xs (f x b)" by simp
  also have "\<dots> = f x b @ fold f xs []" by (rule step)
  also have "f x b = b @ f x []" by (rule Cons.prems) simp
  also have "(b @ f x []) @ fold f xs [] = b @ (f x [] @ fold f xs [])" by simp
  also have "f x [] @ fold f xs [] = fold f xs (f x [])" by (rule step [symmetric])
  also have "\<dots> = fold f (x # xs) []" by simp
  finally show ?case .
qed

lemma flattenInputs_buffer: "flattenInputs sh buffer = buffer @ flattenInputs sh []"
proof (induction sh arbitrary: buffer)
  case (SInput i) show ?case by simp
next
  case (SArray xs)
  have "fold flattenInputs xs buffer = buffer @ fold flattenInputs xs []"
    by (rule fold_buffer) (rule SArray.IH)
  then show ?case by simp
next
  case (SObject kvs)
  have "fold (\<lambda>(key, x). flattenInputs x) kvs buffer
      = buffer @ fold (\<lambda>(key, x). flattenInputs x) kvs []"
  proof (rule fold_buffer)
    fix kx :: "string \<times> shape" and b
    assume mem: "kx \<in> set kvs"
    obtain k x where kx: "kx = (k, x)" by (cases kx)
    have "flattenInputs x b = b @ flattenInputs x []"
      by (rule SObject.IH [of kx x]) (use mem kx in auto)
    then show "(case kx of (key, x) \<Rightarrow> flattenInputs x) b
       = b @ (case kx of (key, x) \<Rightarrow> flattenInputs x) []"
      by (simp add: kx)
  qed
  then show ?case by simp
qed


lemma set_fold_flatten:
  assumes "\<And>x b. x \<in> set xs \<Longrightarrow> f x b = b @ f x []"
  shows "set (fold f xs b) = set b \<union> (\<Union>x\<in>set xs. set (f x []))"
  using assms
proof (induction xs arbitrary: b)
  case Nil show ?case by simp
next
  case (Cons x xs)
  have "set (fold f xs (f x b)) = set (f x b) \<union> (\<Union>y\<in>set xs. set (f y []))"
    by (rule Cons.IH, rule Cons.prems, simp)
  moreover have "set (f x b) = set b \<union> set (f x [])"
    using Cons.prems [of x b] by (metis list.set_intros(1) set_append)
  ultimately show ?case by auto
qed

lemma set_flattenInputs_unwrap:
  "set (flattenInputs (unwrapGroups s c) []) = {i. reaches s c i}"
  and set_flattenInputs_inputs:
    "set (flattenInputs (inputs s d) []) = {i. reaches s (structure s d) i}"
proof (induction c and d)
  case (CInput i)
  show ?case by (auto simp: reaches_CInput)
next
  case (CGroup g d)
  then show ?case by (simp add: unwrapShape_id reaches_CGroup)
next
  case (CArray xs)
  have "set (fold flattenInputs (map (unwrapGroups s) xs) [])
      = set [] \<union> (\<Union>x\<in>set (map (unwrapGroups s) xs). set (flattenInputs x []))"
    by (rule set_fold_flatten) (rule flattenInputs_buffer)
  also have "\<dots> = (\<Union>x\<in>set xs. {i. reaches s x i})"
    using CArray by simp
  also have "\<dots> = {i. reaches s (CArray xs) i}"
    by (auto simp: reaches_CArray)
  finally show ?case by simp
next
  case (CObject kvs)
  let ?f = "\<lambda>(key, x). flattenInputs x"
  have buf: "?f kx b = b @ ?f kx []" for kx :: "string \<times> shape" and b
    by (cases kx) (simp add: flattenInputs_buffer [of _ b])
  have "set (fold ?f (map (map_prod id (unwrapGroups s)) kvs) [])
      = set [] \<union> (\<Union>kx\<in>set (map (map_prod id (unwrapGroups s)) kvs). set (?f kx []))"
    by (rule set_fold_flatten) (rule buf)
  also have "\<dots> = (\<Union>kx\<in>set kvs. {i. reaches s (snd kx) i})"
  proof -
    have "set (?f (map_prod id (unwrapGroups s) kx) []) = {i. reaches s (snd kx) i}"
      if "kx \<in> set kvs" for kx
      using CObject [of kx "snd kx"] that by (cases kx) simp
    then show ?thesis by simp
  qed
  also have "\<dots> = {i. reaches s (CObject kvs) i}"
    by (force simp: reaches_CObject)
  finally show ?case by simp
next
  case (Constant c)
  then show ?case by (simp add: structure_def)
next
  case (Function f)
  then show ?case by (simp add: structure_def)
qed

text \<open>
  C3. The flattened inputs of a group are exactly the inputs obtainable by recursively
  unwrapping its resolved structure through arrays, objects and nested groups: every
  reachable input is in the list, and nothing else is.
\<close>

theorem flattedInputs_reaches:
  "set (flattedInputs s d) = {i. reaches s (structure s d) i}"
  unfolding flattedInputs_def by (rule set_flattenInputs_inputs)

text \<open>The nested sample group: inputs 1 and 2 are reachable, and they are the flattened inputs.\<close>

theorem flattedInputs_reaches_witness:
  "{i. reaches () (structure () nested_group) i} = {1, 2}"
proof -
  have "set (flattedInputs () nested_group) = {1, 2}"
    by (simp add: flattedInputs_def nested_group_def insert_commute)
  then show ?thesis
    using flattedInputs_reaches [of "()" nested_group] by simp
qed

section \<open>Properties of value extraction\<close>

lemma mirrors_getValueFromShape:
  "mirrors (\<lambda>i. Input_get I i p s) sh (getValueFromShape I s sh p)"
proof (induction sh)
  case (SInput i) show ?case by simp
next
  case (SArray xs)
  have "list_all2 (mirrors (\<lambda>i. Input_get I i p s)) xs (map (\<lambda>x. getValueFromShape I s x p) xs)"
    unfolding list_all2_map2 by (rule list.rel_refl_strong) (rule SArray)
  then show ?case by simp
next
  case (SObject kvs)
  have "list_all2 (\<lambda>(key, x) (key', w). key' = key \<and> mirrors (\<lambda>i. Input_get I i p s) x w) kvs
          (map (\<lambda>(key, x). (key, getValueFromShape I s x p)) kvs)"
    unfolding list_all2_map2
  proof (rule list.rel_refl_strong)
    fix kx assume mem: "kx \<in> set kvs"
    obtain k x where kx: "kx = (k, x)" by (cases kx)
    have "mirrors (\<lambda>i. Input_get I i p s) x (getValueFromShape I s x p)"
      by (rule SObject [of kx x]) (use mem kx in simp_all)
    then show "(case kx of (key, x) \<Rightarrow> \<lambda>(key', w). key' = key \<and> mirrors (\<lambda>i. Input_get I i p s) x w)
        (case kx of (key, x) \<Rightarrow> (key, getValueFromShape I s x p))"
      by (simp add: kx)
  qed
  then show ?case by simp
qed

text \<open>
  C5. In each of the three modes the extracted value tree mirrors the collapsed input
  shape of the group: an array for an array, of the same length; an object for an object,
  with the same keys; the attribute of the input, as read, for an input. The empty array
  and the empty object give the empty array and the empty object. The extraction is a
  total function: it has no failing branch.
\<close>

theorem value_mirrors_inputs:
  "mirrors (\<lambda>i. Input_get I i PValue s) (inputs s d) (value' I s d)
   \<and> mirrors (\<lambda>i. Input_get I i PInputValue s) (inputs s d) (inputValue I s d)
   \<and> mirrors (\<lambda>i. Input_get I i PNormalizedInputValue s) (inputs s d) (normalizedInputValue I s d)
   \<and> getValueFromShape I s (SArray []) p = VArr []
   \<and> getValueFromShape I s (SObject []) p = VObj []"
  unfolding value'_def inputValue_def normalizedInputValue_def
  by (simp add: mirrors_getValueFromShape)

section \<open>Properties of batch reset and confirm\<close>

text \<open>
  \<open>value && value[key]\<close> never throws: the property is read of a truthy value only.
  Its result is one step of \<open>passed\<close>.
\<close>

lemma and_prop_passed: "and_prop R v key = Some (passed R v [key])"
  by (cases v) (simp_all add: and_prop_def get_prop_def)

lemma call_with_passed: "call_with R v key f s = f (passed R v [key]) s"
  by (simp add: call_with_def and_prop_passed)

lemma passed_falsy: "\<not> truthy v \<Longrightarrow> passed R v path = v"
  by (cases path) simp_all

lemma passed_append: "passed R v (p @ q) = passed R (passed R v p) q"
proof (induction p arbitrary: v)
  case Nil show ?case by simp
next
  case (Cons key p)
  show ?case
  proof (cases "truthy v")
    case True
    then show ?thesis using Cons by (simp add: passed_falsy split: option.splits)
  next
    case False
    then show ?thesis by (simp add: passed_falsy)
  qed
qed

lemma each_map_values: "each body (map (map_prod id g) kvs) s = each (\<lambda>k x. body k (g x)) kvs s"
  by (induction kvs arbitrary: s) (auto split: prod.splits option.splits)

lemma enumerate_map_values: "enumerate n (map g xs) = map (map_prod id g) (enumerate n xs)"
  by (induction xs arbitrary: n) simp_all

text \<open>
  The equations of \<open>resetShape\<close> and \<open>confirmShape\<close> as the source writes them: the
  callback of \<open>Array.map\<close> and the body of \<open>for..in\<close> call the function on the element
  and on \<open>value && value[key]\<close>.
\<close>

lemma call_with_fun:
  "call_with R v key f
     = (\<lambda>t. case and_prop R v key of None \<Rightarrow> (t, Some TypeError) | Some w \<Rightarrow> f w t)"
  by (rule ext) (simp add: call_with_def)

lemma resetShape_source:
  "resetShape R I (CInput i) v s = Input_reset I i \<lparr>value = v\<rparr> s"
  "resetShape R I (CGroup g d) v s = resetShape R I (structure s d) v s"
  "resetShape R I (CArray xs) v s
     = each (\<lambda>index input t. case and_prop R v (dec index) of
                None \<Rightarrow> (t, Some TypeError) | Some w \<Rightarrow> resetShape R I input w t)
         (enumerate 0 xs) s"
  "resetShape R I (CObject kvs) v s
     = each (\<lambda>key input t. case and_prop R v key of
                None \<Rightarrow> (t, Some TypeError) | Some w \<Rightarrow> resetShape R I input w t)
         kvs s"
proof -
  show "resetShape R I (CInput i) v s = Input_reset I i \<lparr>value = v\<rparr> s" by simp
  show "resetShape R I (CGroup g d) v s = resetShape R I (structure s d) v s"
    by (cases d) (simp_all add: structure_def)
  show "resetShape R I (CArray xs) v s
     = each (\<lambda>index input t. case and_prop R v (dec index) of
                None \<Rightarrow> (t, Some TypeError) | Some w \<Rightarrow> resetShape R I input w t)
         (enumerate 0 xs) s"
    by (simp add: enumerate_map_values each_map_values call_with_fun)
  show "resetShape R I (CObject kvs) v s
     = each (\<lambda>key input t. case and_prop R v key of
                None \<Rightarrow> (t, Some TypeError) | Some w \<Rightarrow> resetShape R I input w t)
         kvs s"
    by (simp add: each_map_values call_with_fun)
qed

lemma confirmShape_source:
  "confirmShape R I (CInput i) v s = Input_confirm I i \<lparr>value = v, next = None\<rparr> s"
  "confirmShape R I (CGroup g d) v s = confirmShape R I (structure s d) v s"
  "confirmShape R I (CArray xs) v s
     = each (\<lambda>index input t. case and_prop R v (dec index) of
                None \<Rightarrow> (t, Some TypeError) | Some w \<Rightarrow> confirmShape R I input w t)
         (enumerate 0 xs) s"
  "confirmShape R I (CObject kvs) v s
     = each (\<lambda>key input t. case and_prop R v key of
                None \<Rightarrow> (t, Some TypeError) | Some w \<Rightarrow> confirmShape R I input w t)
         kvs s"
proof -
  show "confirmShape R I (CInput i) v s = Input_confirm I i \<lparr>value = v, next = None\<rparr> s" by simp
  show "confirmShape R I (CGroup g d) v s = confirmShape R I (structure s d) v s"
    by (cases d) (simp_all add: structure_def)
  show "confirmShape R I (CArray xs) v s
     = each (\<lambda>index input t. case and_prop R v (dec index) of
                None \<Rightarrow> (t, Some TypeError) | Some w \<Rightarrow> confirmShape R I input w t)
         (enumerate 0 xs) s"
    by (simp add: enumerate_map_values each_map_values call_with_fun)
  show "confirmShape R I (CObject kvs) v s
     = each (\<lambda>key input t. case and_prop R v key of
                None \<Rightarrow> (t, Some TypeError) | Some w \<Rightarrow> confirmShape R I input w t)
         kvs s"
    by (simp add: each_map_values call_with_fun)
qed

lemma each_cong_set:
  assumes "\<And>k x t. (k, x) \<in> set kvs \<Longrightarrow> f k x t = g k x t"
  shows "each f kvs s = each g kvs s"
  using assms
proof (induction kvs arbitrary: s)
  case Nil show ?case by simp
next
  case (Cons kx kvs)
  obtain k x where kx: "kx = (k, x)" by (cases kx)
  have hd: "f k x s = g k x s" by (rule Cons.prems) (simp add: kx)
  have tl: "each f kvs t = each g kvs t" for t
    by (rule Cons.IH, rule Cons.prems, simp)
  show ?case by (simp add: kx hd tl split: prod.splits option.splits)
qed

lemma in_enumerate_snd: "(k, x) \<in> set (enumerate n xs) \<Longrightarrow> x \<in> set xs"
  by (auto simp: in_set_enumerate_eq)

lemma walk_array:
  assumes "\<And>x q t. x \<in> set xs \<Longrightarrow> W x (passed R v q) t = F x q t"
  shows "each (\<lambda>index. call_with R (passed R v p) (dec index)) (enumerate 0 (map W xs)) s
       = each (\<lambda>index visit. visit (p @ [dec index])) (enumerate 0 (map F xs)) s"
proof -
  have "each (\<lambda>k x. call_with R (passed R v p) (dec k) (W x)) (enumerate 0 xs) s
      = each (\<lambda>k x. F x (p @ [dec k])) (enumerate 0 xs) s"
  proof (rule each_cong_set)
    fix k x t assume "(k, x) \<in> set (enumerate 0 xs)"
    then have "x \<in> set xs" by (rule in_enumerate_snd)
    then have "W x (passed R v (p @ [dec k])) t = F x (p @ [dec k]) t" by (rule assms)
    then show "call_with R (passed R v p) (dec k) (W x) t = F x (p @ [dec k]) t"
      by (simp add: call_with_passed passed_append)
  qed
  then show ?thesis by (simp add: enumerate_map_values each_map_values)
qed

lemma walk_object:
  assumes "\<And>k x q t. (k, x) \<in> set kvs \<Longrightarrow> W x (passed R v q) t = F x q t"
  shows "each (\<lambda>key. call_with R (passed R v p) key) (map (map_prod id W) kvs) s
       = each (\<lambda>key visit. visit (p @ [key])) (map (map_prod id F) kvs) s"
proof -
  have "each (\<lambda>k x. call_with R (passed R v p) k (W x)) kvs s = each (\<lambda>k x. F x (p @ [k])) kvs s"
  proof (rule each_cong_set)
    fix k x t assume "(k, x) \<in> set kvs"
    then have "W x (passed R v (p @ [k])) t = F x (p @ [k]) t" by (rule assms)
    then show "call_with R (passed R v p) k (W x) t = F x (p @ [k]) t"
      by (simp add: call_with_passed passed_append)
  qed
  then show ?thesis by (simp add: each_map_values)
qed

lemma resetShape_for_each_leaf:
  "resetShape R I c (passed R v p) s
     = for_each_leaf (\<lambda>q i. Input_reset I i \<lparr>value = passed R v q\<rparr>) c p s"
  and resetStructure_for_each_leaf:
  "resetStructure R I d (passed R v p) s
     = for_each_leaf_of (\<lambda>q i. Input_reset I i \<lparr>value = passed R v q\<rparr>) d p s"
proof (induction c and d arbitrary: p s and p s)
  case (CInput i) show ?case by simp
next
  case (CGroup g d) then show ?case by simp
next
  case (CArray xs)
  show ?case using walk_array [of xs "resetShape R I" R v, OF CArray] by simp
next
  case (CObject kvs)
  have "resetShape R I x (passed R v q) t
      = for_each_leaf (\<lambda>q i. Input_reset I i \<lparr>value = passed R v q\<rparr>) x q t"
    if "(k, x) \<in> set kvs" for k x q t
    using CObject [of "(k, x)" x q t] that by simp
  from walk_object [of kvs "resetShape R I" R v, OF this] show ?case by simp
next
  case (Constant c) then show ?case by simp
next
  case (Function f) then show ?case by simp
qed

lemma confirmShape_for_each_leaf:
  "confirmShape R I c (passed R v p) s
     = for_each_leaf (\<lambda>q i. Input_confirm I i \<lparr>value = passed R v q, next = None\<rparr>) c p s"
  and confirmStructure_for_each_leaf:
  "confirmStructure R I d (passed R v p) s
     = for_each_leaf_of (\<lambda>q i. Input_confirm I i \<lparr>value = passed R v q, next = None\<rparr>) d p s"
proof (induction c and d arbitrary: p s and p s)
  case (CInput i) show ?case by simp
next
  case (CGroup g d) then show ?case by simp
next
  case (CArray xs)
  show ?case using walk_array [of xs "confirmShape R I" R v, OF CArray] by simp
next
  case (CObject kvs)
  have "confirmShape R I x (passed R v q) t
      = for_each_leaf (\<lambda>q i. Input_confirm I i \<lparr>value = passed R v q, next = None\<rparr>) x q t"
    if "(k, x) \<in> set kvs" for k x q t
    using CObject [of "(k, x)" x q t] that by simp
  from walk_object [of kvs "confirmShape R I" R v, OF this] show ?case by simp
next
  case (Constant c) then show ?case by simp
next
  case (Function f) then show ?case by simp
qed

text \<open>
  A relation between the state before and the outcome that holds of every call on an
  input, of doing nothing, and of a statement followed by another when the first returns
  normally, holds of the whole traversal.
\<close>

lemma each_rel:
  assumes step: "\<And>k x t. (k, x) \<in> set kvs \<Longrightarrow> Q t (body k x t)"
    and skip: "\<And>t. Q t (t, None)"
    and seq: "\<And>t t' r. Q t (t', None) \<Longrightarrow> Q t' r \<Longrightarrow> Q t r"
  shows "Q s (each body kvs s)"
  using step
proof (induction kvs arbitrary: s)
  case Nil show ?case by (simp add: skip)
next
  case (Cons kx kvs)
  obtain k x where kx: "kx = (k, x)" by (cases kx)
  have hd: "Q s (body k x s)" by (rule Cons.prems) (simp add: kx)
  have tl: "Q t (each body kvs t)" for t by (rule Cons.IH, rule Cons.prems, simp)
  obtain s' r where res: "body k x s = (s', r)" by (cases "body k x s")
  show ?case
  proof (cases r)
    case None
    have "Q s (each body kvs s')" using hd tl [of s'] seq res None by metis
    then show ?thesis by (simp add: kx res None)
  next
    case (Some e)
    then show ?thesis using hd by (simp add: kx res)
  qed
qed

lemma for_each_leaf_rel:
  assumes step: "\<And>q i t. Q t (act q i t)"
    and skip: "\<And>t. Q t (t, None)"
    and seq: "\<And>t t' r. Q t (t', None) \<Longrightarrow> Q t' r \<Longrightarrow> Q t r"
  shows "Q s (for_each_leaf act c p s)"
    and "Q s (for_each_leaf_of act d p s)"
proof (induction c and d arbitrary: p s and p s)
  case (CInput i) show ?case by (simp add: step)
next
  case (CGroup g d) then show ?case by simp
next
  case (CArray xs)
  have "Q s (each (\<lambda>k x. for_each_leaf act x (p @ [dec k])) (enumerate 0 xs) s)"
  proof (rule each_rel [where Q = Q])
    fix k x t assume "(k, x) \<in> set (enumerate 0 xs)"
    then have "x \<in> set xs" by (rule in_enumerate_snd)
    then show "Q t (for_each_leaf act x (p @ [dec k]) t)" by (rule CArray)
  next
    fix t show "Q t (t, None)" by (rule skip)
  next
    fix t t' r assume "Q t (t', None)" "Q t' r" then show "Q t r" by (rule seq)
  qed
  then show ?case by (simp add: enumerate_map_values each_map_values)
next
  case (CObject kvs)
  have "Q s (each (\<lambda>k x. for_each_leaf act x (p @ [k])) kvs s)"
  proof (rule each_rel [where Q = Q])
    fix k x t assume "(k, x) \<in> set kvs"
    then show "Q t (for_each_leaf act x (p @ [k]) t)"
      by (rule CObject [of "(k, x)" x]) simp
  next
    fix t show "Q t (t, None)" by (rule skip)
  next
    fix t t' r assume "Q t (t', None)" "Q t' r" then show "Q t r" by (rule seq)
  qed
  then show ?case by (simp add: each_map_values)
next
  case (Constant c) then show ?case by simp
next
  case (Function f) then show ?case by simp
qed

lemma reset_for_each_leaf:
  "reset R I d args s
     = for_each_leaf (\<lambda>path i. Input_reset I i \<lparr>value = passed R (args_value args) path\<rparr>)
         (structure s d) [] s"
  using resetShape_for_each_leaf [of R I "structure s d" "args_value args" "[]" s]
  by (simp add: reset_def)

lemma confirm_for_each_leaf:
  "confirm R I d args s
     = for_each_leaf (\<lambda>path i. Input_confirm I i \<lparr>value = passed R (args_value args) path, next = None\<rparr>)
         (structure s d) [] s"
  using confirmShape_for_each_leaf [of R I "structure s d" "args_value args" "[]" s]
  by (simp add: confirm_def)

lemma stops_at_append:
  "stops_at th log cs None \<Longrightarrow> stops_at th (log @ cs) cs' r \<Longrightarrow> stops_at th log (cs @ cs') r"
proof (induction cs arbitrary: log)
  case Nil then show ?case by simp
next
  case (Cons c cs)
  from Cons.prems(1) have c: "th log c = None" and rest: "stops_at th (log @ [c]) cs None"
    by (auto split: option.splits)
  have "stops_at th (log @ [c]) (cs @ cs') r"
    by (rule Cons.IH [OF rest]) (use Cons.prems(2) in simp)
  then show ?case by (simp add: c)
qed

lemma recorded_calls:
  assumes act: "\<And>q i log. \<exists>c. P c \<and> act q i log = (log @ [c], th log c)"
  shows "\<exists>cs. list_all P cs \<and> fst (for_each_leaf act c p log) = log @ cs
            \<and> stops_at th log cs (snd (for_each_leaf act c p log))"
proof (rule for_each_leaf_rel(1)
    [where Q = "\<lambda>log r. \<exists>cs. list_all P cs \<and> fst r = log @ cs \<and> stops_at th log cs (snd r)"])
  fix q i log
  obtain c where c: "P c" "act q i log = (log @ [c], th log c)" using act by blast
  have "list_all P [c] \<and> fst (act q i log) = log @ [c] \<and> stops_at th log [c] (snd (act q i log))"
    using c by (simp split: option.splits)
  then show "\<exists>cs. list_all P cs \<and> fst (act q i log) = log @ cs \<and> stops_at th log cs (snd (act q i log))"
    by blast
next
  fix log :: "call list"
  have "list_all P [] \<and> fst (log, None :: exn option) = log @ [] \<and> stops_at th log [] (snd (log, None :: exn option))"
    by simp
  then show "\<exists>cs. list_all P cs \<and> fst (log, None :: exn option) = log @ cs
      \<and> stops_at th log cs (snd (log, None :: exn option))"
    by blast
next
  fix log log' :: "call list" and r :: "call list \<times> exn option"
  assume "\<exists>cs. list_all P cs \<and> fst (log', None :: exn option) = log @ cs
      \<and> stops_at th log cs (snd (log', None :: exn option))"
  then obtain cs where cs: "list_all P cs" "log' = log @ cs" "stops_at th log cs None" by auto
  assume "\<exists>cs. list_all P cs \<and> fst r = log' @ cs \<and> stops_at th log' cs (snd r)"
  then obtain cs' where cs': "list_all P cs'" "fst r = log' @ cs'" "stops_at th log' cs' (snd r)"
    by auto
  have "list_all P (cs @ cs') \<and> fst r = log @ (cs @ cs') \<and> stops_at th log (cs @ cs') (snd r)"
    using cs cs' stops_at_append [of th log cs cs' "snd r"] by simp
  then show "\<exists>cs. list_all P cs \<and> fst r = log @ cs \<and> stops_at th log cs (snd r)" by blast
qed

lemma exception_origin:
  "\<forall>e. snd (for_each_leaf act c p s) = Some e \<longrightarrow> (\<exists>q i t. act q i t = for_each_leaf act c p s)"
  by (rule for_each_leaf_rel(1) [where Q = "\<lambda>t r. \<forall>e. snd r = Some e \<longrightarrow> (\<exists>q i t'. act q i t' = r)"])
    (auto)


section \<open>The listed inputs of a content\<close>

lemma run_leaves_append:
  "run_leaves act (xs @ ys) s
     = (case run_leaves act xs s of (t, None) \<Rightarrow> run_leaves act ys t | (t, Some e) \<Rightarrow> (t, Some e))"
  by (induction xs arbitrary: s) (auto split: prod.splits option.splits)

lemma each_concat:
  assumes "\<And>k x t. (k, x) \<in> set kvs \<Longrightarrow> body k x t = run_leaves act (L k x) t"
  shows "each body kvs s = run_leaves act (concat (map (\<lambda>(k, x). L k x) kvs)) s"
  using assms
proof (induction kvs arbitrary: s)
  case Nil show ?case by simp
next
  case (Cons kx kvs)
  obtain k x where kx: "kx = (k, x)" by (cases kx)
  have hd: "body k x s = run_leaves act (L k x) s" by (rule Cons.prems) (simp add: kx)
  have tl: "each body kvs t = run_leaves act (concat (map (\<lambda>(k, x). L k x) kvs)) t" for t
    by (rule Cons.IH, rule Cons.prems, simp)
  show ?case
    by (simp add: kx hd tl run_leaves_append split: prod.splits option.splits)
qed

lemma leaves_array:
  "leaves s (CArray xs) p = concat (map (\<lambda>(k, x). leaves s x (p @ [dec k])) (enumerate 0 xs))"
  by (simp add: enumerate_map_values comp_def split_def)

lemma leaves_object:
  "leaves s (CObject kvs) p = concat (map (\<lambda>(k, x). leaves s x (p @ [k])) kvs)"
  by (simp add: comp_def split_def)

lemma for_each_leaf_steady:
  "steady c \<Longrightarrow> for_each_leaf act c p s = run_leaves act (leaves s0 c p) s"
  and for_each_leaf_of_steady:
  "steady_of d \<Longrightarrow> for_each_leaf_of act d p s = run_leaves act (leaves_of s0 d p) s"
proof (induction c and d arbitrary: p s s0 and p s s0)
  case (CInput i) show ?case by (simp split: prod.splits option.splits)
next
  case (CGroup g d) then show ?case by simp
next
  case (CArray xs)
  have st: "steady x" if "x \<in> set xs" for x
    using CArray.prems that by (simp add: list_all_iff)
  have "each (\<lambda>k x. for_each_leaf act x (p @ [dec k])) (enumerate 0 xs) s
      = run_leaves act (concat (map (\<lambda>(k, x). leaves s0 x (p @ [dec k])) (enumerate 0 xs))) s"
  proof (rule each_concat)
    fix k x t assume "(k, x) \<in> set (enumerate 0 xs)"
    then have mem: "x \<in> set xs" by (rule in_enumerate_snd)
    show "for_each_leaf act x (p @ [dec k]) t = run_leaves act (leaves s0 x (p @ [dec k])) t"
      by (rule CArray.IH [OF mem st [OF mem]])
  qed
  then show ?case
    by (simp only: leaves_array) (simp add: enumerate_map_values each_map_values)
next
  case (CObject kvs)
  have st: "steady x" if "(k, x) \<in> set kvs" for k x
    using CObject.prems that by (auto simp: list_all_iff)
  have "each (\<lambda>k x. for_each_leaf act x (p @ [k])) kvs s
      = run_leaves act (concat (map (\<lambda>(k, x). leaves s0 x (p @ [k])) kvs)) s"
  proof (rule each_concat)
    fix k x t assume mem: "(k, x) \<in> set kvs"
    show "for_each_leaf act x (p @ [k]) t = run_leaves act (leaves s0 x (p @ [k])) t"
      by (rule CObject.IH [of "(k, x)" x]) (use mem st in auto)
  qed
  then show ?case
    by (simp only: leaves_object) (simp add: each_map_values)
next
  case (Constant c) then show ?case by simp
next
  case (Function f)
  have same: "f s = f s0" using Function.prems by simp
  have "steady (f s0)" using Function.prems by simp
  then have "for_each_leaf act (f s0) p s = run_leaves act (leaves s0 (f s0) p) s"
    by (rule Function.IH [OF rangeI])
  then show ?case by (simp add: same)
qed

lemma fold_flatten_concat:
  "fold flattenInputs shs buffer = buffer @ concat (map (\<lambda>sh. flattenInputs sh []) shs)"
proof (induction shs arbitrary: buffer)
  case Nil show ?case by simp
next
  case (Cons sh shs)
  show ?case using flattenInputs_buffer [of sh buffer] by (simp add: Cons.IH)
qed

lemma fold_flatten_values_concat:
  "fold (\<lambda>(key, x). flattenInputs x) (map (map_prod id U) kvs) buffer
     = buffer @ concat (map (\<lambda>(key, x). flattenInputs (U x) []) kvs)"
proof (induction kvs arbitrary: buffer)
  case Nil show ?case by simp
next
  case (Cons kx kvs)
  obtain k x where kx: "kx = (k, x)" by (cases kx)
  have "fold (\<lambda>(key, x). flattenInputs x) (map (map_prod id U) (kx # kvs)) buffer
      = fold (\<lambda>(key, x). flattenInputs x) (map (map_prod id U) kvs) (flattenInputs (U x) buffer)"
    by (simp add: kx)
  also have "\<dots> = flattenInputs (U x) buffer @ concat (map (\<lambda>(key, x). flattenInputs (U x) []) kvs)"
    by (rule Cons.IH)
  also have "flattenInputs (U x) buffer = buffer @ flattenInputs (U x) []"
    by (rule flattenInputs_buffer)
  finally show ?case by (simp add: kx)
qed

lemma leaves_flatten:
  "map snd (leaves s c p) = flattenInputs (unwrapGroups s c) []"
  and leaves_of_flatten:
  "map snd (leaves_of s d p) = flattenInputs (inputs s d) []"
proof (induction c and d arbitrary: p and p)
  case (CInput i) show ?case by simp
next
  case (CGroup g d) then show ?case by (simp add: unwrapShape_id)
next
  case (CArray xs)
  have "concat (map (\<lambda>(k, x). map snd (leaves s x (p @ [dec k]))) (enumerate n xs))
      = concat (map (\<lambda>x. flattenInputs (unwrapGroups s x) []) xs)" for n
    using CArray
  proof (induction xs arbitrary: n)
    case Nil show ?case by simp
  next
    case (Cons x xs) then show ?case by simp
  qed
  then show ?case
    by (simp only: leaves_array)
      (simp add: map_concat comp_def split_def fold_flatten_concat)
next
  case (CObject kvs)
  have "concat (map (\<lambda>(k, x). map snd (leaves s x (p @ [k]))) kvs)
      = concat (map (\<lambda>(k, x). flattenInputs (unwrapGroups s x) []) kvs)"
    using CObject
  proof (induction kvs)
    case Nil show ?case by simp
  next
    case (Cons kx kvs)
    obtain k x where kx: "kx = (k, x)" by (cases kx)
    have "map snd (leaves s x (p @ [k])) = flattenInputs (unwrapGroups s x) []"
      by (rule Cons.prems [of kx x]) (simp_all add: kx)
    moreover have "concat (map (\<lambda>(k, x). map snd (leaves s x (p @ [k]))) kvs)
      = concat (map (\<lambda>(k, x). flattenInputs (unwrapGroups s x) []) kvs)"
      by (rule Cons.IH) (rule Cons.prems, auto)
    ultimately show ?case by (simp add: kx)
  qed
  moreover have "map snd (leaves s (CObject kvs) p)
      = concat (map (\<lambda>(k, x). map snd (leaves s x (p @ [k]))) kvs)"
    by (simp only: leaves_object) (simp add: map_concat comp_def split_def)
  moreover have "flattenInputs (unwrapGroups s (CObject kvs)) []
      = concat (map (\<lambda>(k, x). flattenInputs (unwrapGroups s x) []) kvs)"
    using fold_flatten_values_concat [of "unwrapGroups s" kvs "[]"] by simp
  ultimately show ?case by simp
next
  case (Constant c) then show ?case by simp
next
  case (Function f) then show ?case by simp
qed

lemma run_leaves_never:
  "run_leaves (\<lambda>p i log. (log @ [mk p i], None)) L log = (log @ map (\<lambda>(p, i). mk p i) L, None)"
  by (induction L arbitrary: log) (auto)

lemma run_leaves_throws:
  "run_leaves (\<lambda>p i log. (log @ [mk p i], throws log (mk p i))) L log = (log', r)
     \<Longrightarrow> \<exists>calls rest. log' = log @ calls \<and> map (\<lambda>(p, i). mk p i) L = calls @ rest
           \<and> stops_at throws log calls r \<and> (r = None \<longrightarrow> rest = [])"
proof (induction L arbitrary: log)
  case Nil
  then have "log' = log @ [] \<and> map (\<lambda>(p, i). mk p i) [] = [] @ []
      \<and> stops_at throws log [] r \<and> (r = None \<longrightarrow> [] = ([] :: call list))" by simp
  then show ?case by (intro exI)
next
  case (Cons pi L)
  obtain p i where pi: "pi = (p, i)" by (cases pi)
  show ?case
  proof (cases "throws log (mk p i)")
    case None
    then have "run_leaves (\<lambda>p i log. (log @ [mk p i], throws log (mk p i))) L (log @ [mk p i]) = (log', r)"
      using Cons.prems by (simp add: pi)
    from Cons.IH [OF this] obtain calls rest where
      a: "log' = (log @ [mk p i]) @ calls" and b: "map (\<lambda>(p, i). mk p i) L = calls @ rest"
      and c: "stops_at throws (log @ [mk p i]) calls r" and d: "r = None \<longrightarrow> rest = []"
      by auto
    have "log' = log @ (mk p i # calls) \<and> map (\<lambda>(p, i). mk p i) (pi # L) = (mk p i # calls) @ rest
      \<and> stops_at throws log (mk p i # calls) r \<and> (r = None \<longrightarrow> rest = [])"
      using a b c d None by (simp add: pi)
    then show ?thesis by (intro exI)
  next
    case (Some e)
    have "log' = log @ [mk p i] \<and> map (\<lambda>(p, i). mk p i) (pi # L) = [mk p i] @ map (\<lambda>(p, i). mk p i) L
      \<and> stops_at throws log [mk p i] r \<and> (r = None \<longrightarrow> map (\<lambda>(p, i). mk p i) L = [])"
      using Cons.prems by (auto simp: pi Some)
    then show ?thesis by (intro exI)
  qed
qed


lemma run_leaves_abort:
  "run_leaves act before s = (t, None) \<Longrightarrow> act p i t = (t', Some e)
     \<Longrightarrow> run_leaves act (before @ (p, i) # after) s = (t', Some e)"
  by (simp add: run_leaves_append)

lemma resetShape_run_leaves:
  "steady c \<Longrightarrow> resetShape R I c v s
     = run_leaves (\<lambda>path i. Input_reset I i \<lparr>value = passed R v path\<rparr>) (leaves s c []) s"
  using resetShape_for_each_leaf [of R I c v "[]" s]
    for_each_leaf_steady [of c "\<lambda>path i. Input_reset I i \<lparr>value = passed R v path\<rparr>" "[]" s s]
  by simp

lemma confirmShape_run_leaves:
  "steady c \<Longrightarrow> confirmShape R I c v s
     = run_leaves (\<lambda>path i. Input_confirm I i \<lparr>value = passed R v path, next = None\<rparr>) (leaves s c []) s"
  using confirmShape_for_each_leaf [of R I c v "[]" s]
    for_each_leaf_steady [of c "\<lambda>path i. Input_confirm I i \<lparr>value = passed R v path, next = None\<rparr>" "[]" s s]
  by simp


text \<open>The definitions that a run on the sample inputs unfolds.\<close>

lemmas run_defs = reset_def confirm_def structure_def example_group_def recorder_def never_def
  input1_throws_def args_value_def call_with_def and_prop_def get_prop_def member_def
  sample_runtime_def input3_throws_def array_group_def recorded_nested_group_def
  constructor_group_def

lemma dec_digits:
  "dec 0 = ''0''" "dec 1 = ''1''" "dec 2 = ''2''" "dec (Suc 0) = ''1''" "dec (Suc (Suc 0)) = ''2''"
  by (simp_all add: dec.simps char_of_def bit_Suc bit_0)

lemma reset_run_leaves:
  "steady (structure s d) \<Longrightarrow> reset R I d args s
     = run_leaves (\<lambda>path i. Input_reset I i \<lparr>value = passed R (args_value args) path\<rparr>)
         (leaves s (structure s d) []) s"
  by (simp add: reset_def resetShape_run_leaves)

lemma confirm_run_leaves:
  "steady (structure s d) \<Longrightarrow> confirm R I d args s
     = run_leaves (\<lambda>path i. Input_confirm I i \<lparr>value = passed R (args_value args) path, next = None\<rparr>)
         (leaves s (structure s d) []) s"
  by (simp add: confirm_def confirmShape_run_leaves)

lemma recorder_reset_fun:
  "(\<lambda>path i. Input_reset (recorder throws) i \<lparr>value = passed R v path\<rparr>)
     = (\<lambda>path i log. (log @ [ResetCall i \<lparr>value = passed R v path\<rparr>],
                       throws log (ResetCall i \<lparr>value = passed R v path\<rparr>)))"
  by (simp add: recorder_def)

lemma recorder_confirm_fun:
  "(\<lambda>path i. Input_confirm (recorder throws) i \<lparr>value = passed R v path, next = None\<rparr>)
     = (\<lambda>path i log. (log @ [ConfirmCall i \<lparr>value = passed R v path, next = None\<rparr>],
                       throws log (ConfirmCall i \<lparr>value = passed R v path, next = None\<rparr>)))"
  by (simp add: recorder_def)

lemma never_fun: "never = (\<lambda>log c. None)"
  by (intro ext) (simp add: never_def)


lemma confirm_recorded_never:
  assumes "steady (structure log g)"
  shows "confirm R (recorder never) g args log
     = (log @ map (\<lambda>(path, i). ConfirmCall i \<lparr>value = passed R (args_value args) path, next = None\<rparr>)
                (leaves log (structure log g) []), None)"
proof -
  have "confirm R (recorder never) g args log
      = run_leaves (\<lambda>path i log.
            (log @ [ConfirmCall i \<lparr>value = passed R (args_value args) path, next = None\<rparr>], None))
          (leaves log (structure log g) []) log"
    by (simp only: confirm_run_leaves [OF assms] recorder_confirm_fun never_fun)
  also have "\<dots> = (log @ map (\<lambda>(path, i). ConfirmCall i \<lparr>value = passed R (args_value args) path, next = None\<rparr>)
                (leaves log (structure log g) []), None)"
    by (rule run_leaves_never
        [of "\<lambda>path i. ConfirmCall i \<lparr>value = passed R (args_value args) path, next = None\<rparr>"])
  finally show ?thesis .
qed

lemma reset_recorded_throws:
  assumes "steady (structure log g)"
  shows "\<exists>calls rest.
      fst (reset R (recorder throws) g args log) = log @ calls
      \<and> map (\<lambda>(path, i). ResetCall i \<lparr>value = passed R (args_value args) path\<rparr>)
            (leaves log (structure log g) []) = calls @ rest
      \<and> stops_at throws log calls (snd (reset R (recorder throws) g args log))
      \<and> (snd (reset R (recorder throws) g args log) = None \<longrightarrow> rest = [])"
proof -
  have "run_leaves (\<lambda>path i log. (log @ [ResetCall i \<lparr>value = passed R (args_value args) path\<rparr>],
                       throws log (ResetCall i \<lparr>value = passed R (args_value args) path\<rparr>)))
          (leaves log (structure log g) []) log
      = (fst (reset R (recorder throws) g args log), snd (reset R (recorder throws) g args log))"
    by (simp only: reset_run_leaves [OF assms] recorder_reset_fun prod.collapse)
  then show ?thesis
    by (rule run_leaves_throws
        [of "\<lambda>path i. ResetCall i \<lparr>value = passed R (args_value args) path\<rparr>" throws])
qed

lemma confirm_recorded_throws:
  assumes "steady (structure log g)"
  shows "\<exists>calls rest.
      fst (confirm R (recorder throws) g args log) = log @ calls
      \<and> map (\<lambda>(path, i). ConfirmCall i \<lparr>value = passed R (args_value args) path, next = None\<rparr>)
            (leaves log (structure log g) []) = calls @ rest
      \<and> stops_at throws log calls (snd (confirm R (recorder throws) g args log))
      \<and> (snd (confirm R (recorder throws) g args log) = None \<longrightarrow> rest = [])"
proof -
  have "run_leaves (\<lambda>path i log.
            (log @ [ConfirmCall i \<lparr>value = passed R (args_value args) path, next = None\<rparr>],
             throws log (ConfirmCall i \<lparr>value = passed R (args_value args) path, next = None\<rparr>)))
          (leaves log (structure log g) []) log
      = (fst (confirm R (recorder throws) g args log), snd (confirm R (recorder throws) g args log))"
    by (simp only: confirm_run_leaves [OF assms] recorder_confirm_fun prod.collapse)
  then show ?thesis
    by (rule run_leaves_throws
        [of "\<lambda>path i. ConfirmCall i \<lparr>value = passed R (args_value args) path, next = None\<rparr>" throws])
qed

lemma leaves_flattedInputs: "map snd (leaves s (structure s d) []) = flattedInputs s d"
  by (simp add: leaves_flatten flattedInputs_def inputs_structure)

lemma leaves_reaches: "snd ` set (leaves s (structure s d) []) = {i. reaches s (structure s d) i}"
proof -
  have "snd ` set (leaves s (structure s d) []) = set (map snd (leaves s (structure s d) []))"
    by simp
  also have "\<dots> = set (flattenInputs (unwrapGroups s (structure s d)) [])"
    by (simp only: leaves_flatten)
  also have "\<dots> = {i. reaches s (structure s d) i}"
    by (rule set_flattenInputs_unwrap)
  finally show ?thesis .
qed


section \<open>Properties of the reads and the actions under the reactive host\<close>

lemma world_remember [simp]: "world (remember h g st) = world st"
  by (simp add: remember_def)




lemma run_world_transparent:
  "transparent_of h (Function f) g \<Longrightarrow> f (run_world h g st) = f (world st)"
  by (auto simp: run_world_def split: option.splits)


lemma steady_transparent:
  "steady c \<Longrightarrow> transparent h c"
  and steady_of_transparent:
  "steady_of d \<Longrightarrow> transparent_of h d g"
proof (induction c and d arbitrary: and g)
  case (CInput i) show ?case by simp
next
  case (CGroup g d) then show ?case by simp
next
  case (CArray xs) then show ?case by (simp add: list_all_iff)
next
  case (CObject kvs)
  then show ?case by (fastforce simp: list_all_iff snds.simps)
next
  case (Constant c) then show ?case by simp
next
  case (Function f)
  have "transparent h (f w)" for w
    by (rule Function.IH [OF rangeI]) (use Function.prems in simp)
  moreover have "f w0 = f w" for w0 w using Function.prems by simp
  ultimately show ?case by simp
qed

lemma each_sim:
  assumes "\<And>k x st. (k, x) \<in> set kvs
      \<Longrightarrow> world (fst (B k x st)) = fst (b k x (world st)) \<and> snd (B k x st) = snd (b k x (world st))"
  shows "world (fst (each B kvs st)) = fst (each b kvs (world st))
       \<and> snd (each B kvs st) = snd (each b kvs (world st))"
  using assms
proof (induction kvs arbitrary: st)
  case Nil show ?case by simp
next
  case (Cons kx kvs)
  obtain k x where kx: "kx = (k, x)" by (cases kx)
  obtain st1 r where one: "B k x st = (st1, r)" by (cases "B k x st")
  obtain w1 r' where one': "b k x (world st) = (w1, r')" by (cases "b k x (world st)")
  have "world (fst (B k x st)) = fst (b k x (world st)) \<and> snd (B k x st) = snd (b k x (world st))"
    by (rule Cons.prems) (simp add: kx)
  then have eq: "w1 = world st1" "r' = r" by (simp_all add: one one')
  have tl: "world (fst (each B kvs st1)) = fst (each b kvs (world st1))
       \<and> snd (each B kvs st1) = snd (each b kvs (world st1))"
    by (rule Cons.IH, rule Cons.prems, simp)
  show ?case
  proof (cases r)
    case None then show ?thesis using tl by (simp add: kx one one' eq)
  next
    case (Some e) then show ?thesis by (simp add: kx one one' eq)
  qed
qed

lemma call_with_sim:
  assumes "\<And>w st. world (fst (F w st)) = fst (f w (world st)) \<and> snd (F w st) = snd (f w (world st))"
  shows "world (fst (call_with R v key F st)) = fst (call_with R v key f (world st))
       \<and> snd (call_with R v key F st) = snd (call_with R v key f (world st))"
  using assms by (simp add: call_with_def split: option.splits)

lemma on_world_sim:
  "world (fst (on_world call st)) = fst (call (world st)) \<and> snd (on_world call st) = snd (call (world st))"
  by (simp add: on_world_def split_def)

lemma resetShape_memo_sim:
  "transparent h c \<Longrightarrow>
     world (fst (resetShape_memo h R I c v st)) = fst (resetShape R I c v (world st))
     \<and> snd (resetShape_memo h R I c v st) = snd (resetShape R I c v (world st))"
  and resetStructure_memo_sim:
  "transparent_of h d g \<Longrightarrow>
     world (fst (resetStructure_memo h R I d g v st)) = fst (resetStructure R I d v (world st))
     \<and> snd (resetStructure_memo h R I d g v st) = snd (resetStructure R I d v (world st))"
proof (induction c and d arbitrary: v st and g v st)
  case (CInput i) show ?case by (simp add: on_world_sim)
next
  case (CGroup g d) then show ?case by simp
next
  case (CArray xs)
  have tr: "transparent h x" if "x \<in> set xs" for x
    using CArray.prems that by (simp add: list_all_iff)
  have "world (fst (each (\<lambda>k x. call_with R v (dec k) (resetShape_memo h R I x)) (enumerate 0 xs) st))
        = fst (each (\<lambda>k x. call_with R v (dec k) (resetShape R I x)) (enumerate 0 xs) (world st))
      \<and> snd (each (\<lambda>k x. call_with R v (dec k) (resetShape_memo h R I x)) (enumerate 0 xs) st)
        = snd (each (\<lambda>k x. call_with R v (dec k) (resetShape R I x)) (enumerate 0 xs) (world st))"
  proof (rule each_sim)
    fix k x st assume "(k, x) \<in> set (enumerate 0 xs)"
    then have mem: "x \<in> set xs" by (rule in_enumerate_snd)
    show "world (fst (call_with R v (dec k) (resetShape_memo h R I x) st))
          = fst (call_with R v (dec k) (resetShape R I x) (world st))
        \<and> snd (call_with R v (dec k) (resetShape_memo h R I x) st)
          = snd (call_with R v (dec k) (resetShape R I x) (world st))"
      by (rule call_with_sim) (rule CArray.IH [OF mem tr [OF mem]])
  qed
  then show ?case by (simp add: enumerate_map_values each_map_values)
next
  case (CObject kvs)
  have tr: "transparent h x" if "(k, x) \<in> set kvs" for k x
    using CObject.prems that by (auto simp: list_all_iff)
  have "world (fst (each (\<lambda>k x. call_with R v k (resetShape_memo h R I x)) kvs st))
        = fst (each (\<lambda>k x. call_with R v k (resetShape R I x)) kvs (world st))
      \<and> snd (each (\<lambda>k x. call_with R v k (resetShape_memo h R I x)) kvs st)
        = snd (each (\<lambda>k x. call_with R v k (resetShape R I x)) kvs (world st))"
  proof (rule each_sim)
    fix k x st assume mem: "(k, x) \<in> set kvs"
    have ih: "world (fst (resetShape_memo h R I x w st')) = fst (resetShape R I x w (world st'))
        \<and> snd (resetShape_memo h R I x w st') = snd (resetShape R I x w (world st'))" for w st'
      by (rule CObject.IH [of "(k, x)" x]) (use mem tr in \<open>auto simp: snds.simps\<close>)
    show "world (fst (call_with R v k (resetShape_memo h R I x) st))
          = fst (call_with R v k (resetShape R I x) (world st))
        \<and> snd (call_with R v k (resetShape_memo h R I x) st)
          = snd (call_with R v k (resetShape R I x) (world st))"
      by (rule call_with_sim) (rule ih)
  qed
  then show ?case by (simp add: each_map_values)
next
  case (Constant c)
  then show ?case using Constant.IH [of v "remember h g st"] by simp
next
  case (Function f)
  have "transparent h (f (run_world h g st))" using Function.prems by simp
  then have "world (fst (resetShape_memo h R I (f (run_world h g st)) v (remember h g st)))
        = fst (resetShape R I (f (run_world h g st)) v (world (remember h g st)))
      \<and> snd (resetShape_memo h R I (f (run_world h g st)) v (remember h g st))
        = snd (resetShape R I (f (run_world h g st)) v (world (remember h g st)))"
    by (rule Function.IH [OF rangeI])
  then show ?case using run_world_transparent [OF Function.prems, of st] by simp
qed

lemma confirmShape_memo_sim:
  "transparent h c \<Longrightarrow>
     world (fst (confirmShape_memo h R I c v st)) = fst (confirmShape R I c v (world st))
     \<and> snd (confirmShape_memo h R I c v st) = snd (confirmShape R I c v (world st))"
  and confirmStructure_memo_sim:
  "transparent_of h d g \<Longrightarrow>
     world (fst (confirmStructure_memo h R I d g v st)) = fst (confirmStructure R I d v (world st))
     \<and> snd (confirmStructure_memo h R I d g v st) = snd (confirmStructure R I d v (world st))"
proof (induction c and d arbitrary: v st and g v st)
  case (CInput i) show ?case by (simp add: on_world_sim)
next
  case (CGroup g d) then show ?case by simp
next
  case (CArray xs)
  have tr: "transparent h x" if "x \<in> set xs" for x
    using CArray.prems that by (simp add: list_all_iff)
  have "world (fst (each (\<lambda>k x. call_with R v (dec k) (confirmShape_memo h R I x)) (enumerate 0 xs) st))
        = fst (each (\<lambda>k x. call_with R v (dec k) (confirmShape R I x)) (enumerate 0 xs) (world st))
      \<and> snd (each (\<lambda>k x. call_with R v (dec k) (confirmShape_memo h R I x)) (enumerate 0 xs) st)
        = snd (each (\<lambda>k x. call_with R v (dec k) (confirmShape R I x)) (enumerate 0 xs) (world st))"
  proof (rule each_sim)
    fix k x st assume "(k, x) \<in> set (enumerate 0 xs)"
    then have mem: "x \<in> set xs" by (rule in_enumerate_snd)
    show "world (fst (call_with R v (dec k) (confirmShape_memo h R I x) st))
          = fst (call_with R v (dec k) (confirmShape R I x) (world st))
        \<and> snd (call_with R v (dec k) (confirmShape_memo h R I x) st)
          = snd (call_with R v (dec k) (confirmShape R I x) (world st))"
      by (rule call_with_sim) (rule CArray.IH [OF mem tr [OF mem]])
  qed
  then show ?case by (simp add: enumerate_map_values each_map_values)
next
  case (CObject kvs)
  have tr: "transparent h x" if "(k, x) \<in> set kvs" for k x
    using CObject.prems that by (auto simp: list_all_iff)
  have "world (fst (each (\<lambda>k x. call_with R v k (confirmShape_memo h R I x)) kvs st))
        = fst (each (\<lambda>k x. call_with R v k (confirmShape R I x)) kvs (world st))
      \<and> snd (each (\<lambda>k x. call_with R v k (confirmShape_memo h R I x)) kvs st)
        = snd (each (\<lambda>k x. call_with R v k (confirmShape R I x)) kvs (world st))"
  proof (rule each_sim)
    fix k x st assume mem: "(k, x) \<in> set kvs"
    have ih: "world (fst (confirmShape_memo h R I x w st')) = fst (confirmShape R I x w (world st'))
        \<and> snd (confirmShape_memo h R I x w st') = snd (confirmShape R I x w (world st'))" for w st'
      by (rule CObject.IH [of "(k, x)" x]) (use mem tr in \<open>auto simp: snds.simps\<close>)
    show "world (fst (call_with R v k (confirmShape_memo h R I x) st))
          = fst (call_with R v k (confirmShape R I x) (world st))
        \<and> snd (call_with R v k (confirmShape_memo h R I x) st)
          = snd (call_with R v k (confirmShape R I x) (world st))"
      by (rule call_with_sim) (rule ih)
  qed
  then show ?case by (simp add: each_map_values)
next
  case (Constant c)
  then show ?case using Constant.IH [of v "remember h g st"] by simp
next
  case (Function f)
  have "transparent h (f (run_world h g st))" using Function.prems by simp
  then have "world (fst (confirmShape_memo h R I (f (run_world h g st)) v (remember h g st)))
        = fst (confirmShape R I (f (run_world h g st)) v (world (remember h g st)))
      \<and> snd (confirmShape_memo h R I (f (run_world h g st)) v (remember h g st))
        = snd (confirmShape R I (f (run_world h g st)) v (world (remember h g st)))"
    by (rule Function.IH [OF rangeI])
  then show ?case using run_world_transparent [OF Function.prems, of st] by simp
qed

lemma resetStructure_reset: "resetStructure R I d (args_value args) s = reset R I d args s"
  by (cases d) (simp_all add: reset_def structure_def)

lemma confirmStructure_confirm: "confirmStructure R I d (args_value args) s = confirm R I d args s"
  by (cases d) (simp_all add: confirm_def structure_def)

lemma reset_action_refines:
  "transparent_of h d g \<Longrightarrow>
     world (fst (reset_action h R I g d args st)) = fst (reset R I d args (world st))
     \<and> snd (reset_action h R I g d args st) = snd (reset R I d args (world st))"
  using resetStructure_memo_sim [of h d g R I "args_value args" st]
  by (simp add: reset_action_def resetStructure_reset)

lemma confirm_action_refines:
  "transparent_of h d g \<Longrightarrow>
     world (fst (confirm_action h R I g d args st)) = fst (confirm R I d args (world st))
     \<and> snd (confirm_action h R I g d args st) = snd (confirm R I d args (world st))"
  using confirmStructure_memo_sim [of h d g R I "args_value args" st]
  by (simp add: confirm_action_def confirmStructure_confirm)

lemma unobserved_transparent:
  "\<forall>g. \<not> memoizes h g \<Longrightarrow> transparent h c"
  and unobserved_transparent_of:
  "\<forall>g. \<not> memoizes h g \<Longrightarrow> transparent_of h d g"
proof (induction c and d arbitrary: and g)
  case (CInput i) show ?case by simp
next
  case (CGroup g d) then show ?case by simp
next
  case (CArray xs) then show ?case by (simp add: list_all_iff)
next
  case (CObject kvs)
  then show ?case by (fastforce simp: list_all_iff snds.simps)
next
  case (Constant c) then show ?case by simp
next
  case (Function f)
  have "transparent h (f w)" for w
    by (rule Function.IH [OF rangeI]) (rule Function.prems)
  then show ?case using Function.prems by simp
qed










section \<open>Function-valued descriptions\<close>







section \<open>The batch operations\<close>

text \<open>
  C2. \<open>G.confirm({value: v})\<close> calls \<open>confirm\<close> of each input it reaches with the
  argument object \<open>{ value }\<close>: the property \<open>next\<close>, the request to advance the
  focus, is absent in every call, whatever the input's own \<open>confirm\<close> would do with it.
  For every \<open>Input\<close> class the batch is the traversal that makes these calls. When the
  tree is steady, it is the run of these calls over the listed inputs of the structure,
  and these are the flattened inputs of the group, the inputs reachable in its structure.
  On recording inputs that never throw, the calls recorded are one \<open>confirm\<close> without
  \<open>next\<close> for each listed input, in order, each with the value that the descent
  supplies at its path, and no other call. Whatever the inputs throw and whatever the
  tree, every call recorded is a \<open>confirm\<close> without \<open>next\<close>. Under a host for
  which the description is transparent, the action \<open>confirm_action\<close> leaves the inputs
  in the state and throws the exception that \<open>confirm\<close> gives.
\<close>

theorem confirm_next_absent:
  "confirm R I d args s
     = for_each_leaf (\<lambda>path i. Input_confirm I i \<lparr>value = passed R (args_value args) path, next = None\<rparr>)
         (structure s d) [] s
   \<and> (steady (structure s d) \<longrightarrow>
        confirm R I d args s
          = run_leaves (\<lambda>path i. Input_confirm I i \<lparr>value = passed R (args_value args) path, next = None\<rparr>)
              (leaves s (structure s d) []) s)
   \<and> (steady (structure log g) \<longrightarrow>
        confirm R (recorder never) g args log
          = (log @ map (\<lambda>(path, i). ConfirmCall i \<lparr>value = passed R (args_value args) path, next = None\<rparr>)
                     (leaves log (structure log g) []), None))
   \<and> map snd (leaves s (structure s d) []) = flattedInputs s d
   \<and> snd ` set (leaves s (structure s d) []) = {i. reaches s (structure s d) i}
   \<and> (\<exists>calls. fst (confirm R (recorder throws) g args log) = log @ calls \<and> list_all plain_confirm calls)
   \<and> (transparent_of h d n \<longrightarrow>
        world (fst (confirm_action h R I n d args st)) = fst (confirm R I d args (world st))
      \<and> snd (confirm_action h R I n d args st) = snd (confirm R I d args (world st)))"
proof (intro conjI impI)
  show "world (fst (confirm_action h R I n d args st)) = fst (confirm R I d args (world st))"
    "snd (confirm_action h R I n d args st) = snd (confirm R I d args (world st))"
    if "transparent_of h d n"
    using confirm_action_refines [OF that] by simp_all
  show "confirm R I d args s
     = for_each_leaf (\<lambda>path i. Input_confirm I i \<lparr>value = passed R (args_value args) path, next = None\<rparr>)
         (structure s d) [] s"
    by (rule confirm_for_each_leaf)
  show "confirm R I d args s
          = run_leaves (\<lambda>path i. Input_confirm I i \<lparr>value = passed R (args_value args) path, next = None\<rparr>)
              (leaves s (structure s d) []) s"
    if "steady (structure s d)"
    using that by (rule confirm_run_leaves)
  show "confirm R (recorder never) g args log
          = (log @ map (\<lambda>(path, i). ConfirmCall i \<lparr>value = passed R (args_value args) path, next = None\<rparr>)
                     (leaves log (structure log g) []), None)"
    if "steady (structure log g)"
    using that by (rule confirm_recorded_never)
  show "map snd (leaves s (structure s d) []) = flattedInputs s d"
    by (rule leaves_flattedInputs)
  show "snd ` set (leaves s (structure s d) []) = {i. reaches s (structure s d) i}"
    by (rule leaves_reaches)
  have "\<exists>c. plain_confirm c
      \<and> Input_confirm (recorder throws) i \<lparr>value = passed R (args_value args) q, next = None\<rparr> t
          = (t @ [c], throws t c)" for q i t
    by (simp add: recorder_def)
  from recorded_calls [of plain_confirm
      "\<lambda>q i. Input_confirm (recorder throws) i \<lparr>value = passed R (args_value args) q, next = None\<rparr>"
      throws "structure log g" "[]" log, OF this]
  show "\<exists>calls. fst (confirm R (recorder throws) g args log) = log @ calls \<and> list_all plain_confirm calls"
    unfolding confirm_for_each_leaf by blast
qed

lemma steady_recorded_nested_group: "steady (structure [] recorded_nested_group)"
  by (simp add: structure_def recorded_nested_group_def)

text \<open>
  Over \<open>[input 1, G]\<close>, where the nested group \<open>G\<close> describes \<open>{a: input 2}\<close> by a
  function, \<open>confirm({value: ["x", {a: "y"}]})\<close> calls \<open>confirm\<close> of input 1 with
  \<open>"x"\<close> and of input 2 with \<open>"y"\<close>, both without \<open>next\<close>; inputs 1 and 2 are the
  flattened inputs and the reachable inputs. The action under a host that holds the result
  of every getter makes the same calls.
\<close>

theorem confirm_next_absent_witness:
  "steady (structure [] recorded_nested_group)
   \<and> confirm sample_runtime (recorder never) recorded_nested_group
       (Some \<lparr>value = VArr [Str ''x'', VObj [(''a'', Str ''y'')]]\<rparr>) []
       = ([ConfirmCall 1 \<lparr>value = Str ''x'', next = None\<rparr>,
           ConfirmCall 2 \<lparr>value = Str ''y'', next = None\<rparr>], None)
   \<and> leaves [] (structure [] recorded_nested_group) [] = [([''0''], 1), ([''1'', ''a''], 2)]
   \<and> flattedInputs [] recorded_nested_group = [1, 2]
   \<and> {i. reaches [] (structure [] recorded_nested_group) i} = {1, 2}
   \<and> transparent_of observed recorded_nested_group 0
   \<and> world (fst (confirm_action observed sample_runtime (recorder never) 0 recorded_nested_group
        (Some \<lparr>value = VArr [Str ''x'', VObj [(''a'', Str ''y'')]]\<rparr>) (first_use [])))
       = [ConfirmCall 1 \<lparr>value = Str ''x'', next = None\<rparr>,
          ConfirmCall 2 \<lparr>value = Str ''y'', next = None\<rparr>]"
proof -
  have tr: "transparent_of observed recorded_nested_group 0"
    by (simp add: recorded_nested_group_def)
  have l: "leaves [] (structure [] recorded_nested_group) [] = [([''0''], 1), ([''1'', ''a''], 2)]"
    by (simp add: structure_def recorded_nested_group_def dec_digits)
  note inst = confirm_next_absent
    [where R = sample_runtime and I = "recorder never" and d = recorded_nested_group
      and g = recorded_nested_group and s = "[]" and log = "[]" and throws = never
      and args = "Some \<lparr>value = VArr [Str ''x'', VObj [(''a'', Str ''y'')]]\<rparr>"
      and h = observed and n = 0 and st = "first_use []"]
  have "confirm sample_runtime (recorder never) recorded_nested_group
       (Some \<lparr>value = VArr [Str ''x'', VObj [(''a'', Str ''y'')]]\<rparr>) []
       = ([] @ map (\<lambda>(path, i). ConfirmCall i
              \<lparr>value = passed sample_runtime
                  (args_value (Some \<lparr>value = VArr [Str ''x'', VObj [(''a'', Str ''y'')]]\<rparr>)) path,
               next = None\<rparr>)
            (leaves [] (structure [] recorded_nested_group) []), None)"
    by (rule inst [THEN conjunct2, THEN conjunct2, THEN conjunct1, THEN mp,
          OF steady_recorded_nested_group])
  then have run: "confirm sample_runtime (recorder never) recorded_nested_group
       (Some \<lparr>value = VArr [Str ''x'', VObj [(''a'', Str ''y'')]]\<rparr>) []
       = ([ConfirmCall 1 \<lparr>value = Str ''x'', next = None\<rparr>,
           ConfirmCall 2 \<lparr>value = Str ''y'', next = None\<rparr>], None)"
    by (simp add: l args_value_def member_def sample_runtime_def dec_digits)
  have "world (fst (confirm_action observed sample_runtime (recorder never) 0 recorded_nested_group
        (Some \<lparr>value = VArr [Str ''x'', VObj [(''a'', Str ''y'')]]\<rparr>) (first_use [])))
      = fst (confirm sample_runtime (recorder never) recorded_nested_group
        (Some \<lparr>value = VArr [Str ''x'', VObj [(''a'', Str ''y'')]]\<rparr>) (world (first_use [])))"
    by (rule inst [THEN conjunct2, THEN conjunct2, THEN conjunct2, THEN conjunct2, THEN conjunct2,
          THEN conjunct2, THEN mp, OF tr, THEN conjunct1])
  then have act: "world (fst (confirm_action observed sample_runtime (recorder never) 0
        recorded_nested_group
        (Some \<lparr>value = VArr [Str ''x'', VObj [(''a'', Str ''y'')]]\<rparr>) (first_use [])))
       = [ConfirmCall 1 \<lparr>value = Str ''x'', next = None\<rparr>,
          ConfirmCall 2 \<lparr>value = Str ''y'', next = None\<rparr>]"
    by (simp add: first_use_def run)
  note run
  moreover have "flattedInputs [] recorded_nested_group = [1, 2]"
    using inst [THEN conjunct2, THEN conjunct2, THEN conjunct2, THEN conjunct1] by (simp add: l)
  moreover have "{i. reaches [] (structure [] recorded_nested_group) i} = {1, 2}"
    using inst [THEN conjunct2, THEN conjunct2, THEN conjunct2, THEN conjunct2, THEN conjunct1]
    by (simp add: l)
  ultimately show ?thesis using steady_recorded_nested_group l tr act by simp
qed




text \<open>
  C8. A batch reset or confirm over a steady tree is the run of \<open>reset\<close>, respectively
  \<open>confirm\<close>, over the listed inputs of the structure, for every \<open>Input\<close> class:
  when the calls on the inputs before one return normally and the call on that one throws,
  the outcome of the batch is the state and the exception of that call, unchanged, and
  the inputs after it are not called. On the recording inputs: the calls recorded are an
  initial part of the calls for the listed inputs, each but the last returns normally,
  the exception of the last is the outcome, and when nothing is thrown no call is left
  out. For any tree and any \<open>Input\<close> class, a batch that throws returns the very state
  and exception that a call on one input returned, so nothing is caught, replaced or
  rolled back. Under a host for which the description is transparent, the actions
  \<open>reset_action\<close> and \<open>confirm_action\<close> leave the inputs in the state and throw the
  exception that \<open>reset\<close> and \<open>confirm\<close> give.
\<close>

theorem batch_stops_at_exception:
  "(steady (structure s d) \<longrightarrow>
      reset R I d args s
        = run_leaves (\<lambda>path i. Input_reset I i \<lparr>value = passed R (args_value args) path\<rparr>)
            (leaves s (structure s d) []) s
    \<and> confirm R I d args s
        = run_leaves (\<lambda>path i. Input_confirm I i \<lparr>value = passed R (args_value args) path, next = None\<rparr>)
            (leaves s (structure s d) []) s)
   \<and> (run_leaves act before s = (t, None) \<longrightarrow> act p i t = (t', Some e)
        \<longrightarrow> run_leaves act (before @ (p, i) # after) s = (t', Some e))
   \<and> (steady (structure log g) \<longrightarrow>
        (\<exists>calls rest.
            fst (reset R (recorder throws) g args log) = log @ calls
          \<and> map (\<lambda>(path, i). ResetCall i \<lparr>value = passed R (args_value args) path\<rparr>)
                (leaves log (structure log g) []) = calls @ rest
          \<and> stops_at throws log calls (snd (reset R (recorder throws) g args log))
          \<and> (snd (reset R (recorder throws) g args log) = None \<longrightarrow> rest = []))
      \<and> (\<exists>calls rest.
            fst (confirm R (recorder throws) g args log) = log @ calls
          \<and> map (\<lambda>(path, i). ConfirmCall i \<lparr>value = passed R (args_value args) path, next = None\<rparr>)
                (leaves log (structure log g) []) = calls @ rest
          \<and> stops_at throws log calls (snd (confirm R (recorder throws) g args log))
          \<and> (snd (confirm R (recorder throws) g args log) = None \<longrightarrow> rest = [])))
   \<and> (\<exists>calls. fst (reset R (recorder throws) g args log) = log @ calls
       \<and> stops_at throws log calls (snd (reset R (recorder throws) g args log)))
   \<and> (\<exists>calls. fst (confirm R (recorder throws) g args log) = log @ calls
       \<and> stops_at throws log calls (snd (confirm R (recorder throws) g args log)))
   \<and> (snd (reset R I d args s) = Some e
        \<longrightarrow> (\<exists>i x t. Input_reset I i \<lparr>value = x\<rparr> t = reset R I d args s))
   \<and> (snd (confirm R I d args s) = Some e
        \<longrightarrow> (\<exists>i x t. Input_confirm I i \<lparr>value = x, next = None\<rparr> t = confirm R I d args s))
   \<and> (transparent_of h d n \<longrightarrow>
        world (fst (reset_action h R I n d args st)) = fst (reset R I d args (world st))
      \<and> snd (reset_action h R I n d args st) = snd (reset R I d args (world st))
      \<and> world (fst (confirm_action h R I n d args st)) = fst (confirm R I d args (world st))
      \<and> snd (confirm_action h R I n d args st) = snd (confirm R I d args (world st)))"
proof (intro conjI impI)
  show "world (fst (reset_action h R I n d args st)) = fst (reset R I d args (world st))"
    "snd (reset_action h R I n d args st) = snd (reset R I d args (world st))"
    if "transparent_of h d n"
    using reset_action_refines [OF that] by simp_all
  show "world (fst (confirm_action h R I n d args st)) = fst (confirm R I d args (world st))"
    "snd (confirm_action h R I n d args st) = snd (confirm R I d args (world st))"
    if "transparent_of h d n"
    using confirm_action_refines [OF that] by simp_all
  show "reset R I d args s
        = run_leaves (\<lambda>path i. Input_reset I i \<lparr>value = passed R (args_value args) path\<rparr>)
            (leaves s (structure s d) []) s"
    if "steady (structure s d)"
    using that by (rule reset_run_leaves)
  show "confirm R I d args s
        = run_leaves (\<lambda>path i. Input_confirm I i \<lparr>value = passed R (args_value args) path, next = None\<rparr>)
            (leaves s (structure s d) []) s"
    if "steady (structure s d)"
    using that by (rule confirm_run_leaves)
  show "run_leaves act (before @ (p, i) # after) s = (t', Some e)"
    if "run_leaves act before s = (t, None)" and "act p i t = (t', Some e)"
    using that by (rule run_leaves_abort)
  show "\<exists>calls rest.
            fst (reset R (recorder throws) g args log) = log @ calls
          \<and> map (\<lambda>(path, i). ResetCall i \<lparr>value = passed R (args_value args) path\<rparr>)
                (leaves log (structure log g) []) = calls @ rest
          \<and> stops_at throws log calls (snd (reset R (recorder throws) g args log))
          \<and> (snd (reset R (recorder throws) g args log) = None \<longrightarrow> rest = [])"
    if "steady (structure log g)"
    using that by (rule reset_recorded_throws)
  show "\<exists>calls rest.
            fst (confirm R (recorder throws) g args log) = log @ calls
          \<and> map (\<lambda>(path, i). ConfirmCall i \<lparr>value = passed R (args_value args) path, next = None\<rparr>)
                (leaves log (structure log g) []) = calls @ rest
          \<and> stops_at throws log calls (snd (confirm R (recorder throws) g args log))
          \<and> (snd (confirm R (recorder throws) g args log) = None \<longrightarrow> rest = [])"
    if "steady (structure log g)"
    using that by (rule confirm_recorded_throws)
  have "\<exists>c. True \<and> Input_reset (recorder throws) i \<lparr>value = passed R (args_value args) q\<rparr> t
      = (t @ [c], throws t c)" for q i t
    by (simp add: recorder_def)
  from recorded_calls [of "\<lambda>c. True"
      "\<lambda>q i. Input_reset (recorder throws) i \<lparr>value = passed R (args_value args) q\<rparr>"
      throws "structure log g" "[]" log, OF this]
  show "\<exists>calls. fst (reset R (recorder throws) g args log) = log @ calls
       \<and> stops_at throws log calls (snd (reset R (recorder throws) g args log))"
    unfolding reset_for_each_leaf by blast
  have "\<exists>c. True \<and> Input_confirm (recorder throws) i \<lparr>value = passed R (args_value args) q, next = None\<rparr> t
      = (t @ [c], throws t c)" for q i t
    by (simp add: recorder_def)
  from recorded_calls [of "\<lambda>c. True"
      "\<lambda>q i. Input_confirm (recorder throws) i \<lparr>value = passed R (args_value args) q, next = None\<rparr>"
      throws "structure log g" "[]" log, OF this]
  show "\<exists>calls. fst (confirm R (recorder throws) g args log) = log @ calls
       \<and> stops_at throws log calls (snd (confirm R (recorder throws) g args log))"
    unfolding confirm_for_each_leaf by blast
  show "\<exists>i x t. Input_reset I i \<lparr>value = x\<rparr> t = reset R I d args s"
    if "snd (reset R I d args s) = Some e"
    using that exception_origin
      [of "\<lambda>path i. Input_reset I i \<lparr>value = passed R (args_value args) path\<rparr>" "structure s d" "[]" s]
    unfolding reset_for_each_leaf by blast
  show "\<exists>i x t. Input_confirm I i \<lparr>value = x, next = None\<rparr> t = confirm R I d args s"
    if "snd (confirm R I d args s) = Some e"
    using that exception_origin
      [of "\<lambda>path i. Input_confirm I i \<lparr>value = passed R (args_value args) path, next = None\<rparr>"
        "structure s d" "[]" s]
    unfolding confirm_for_each_leaf by blast
qed

text \<open>
  Input 3 throws: the batch over \<open>[input 1, input 3, input 4]\<close> calls input 1, then
  input 3, and passes the exception of input 3 on; input 4 is not called, and the call on
  input 1 is not undone. The action under a host that holds the result of every getter
  does the same.
\<close>

theorem batch_stops_at_exception_witness:
  "steady (structure [] array_group)
   \<and> leaves [] (structure [] array_group) [] = [([''0''], 1), ([''1''], 3), ([''2''], 4)]
   \<and> reset sample_runtime (recorder input3_throws) array_group None []
     = ([ResetCall 1 \<lparr>value = Undefined\<rparr>, ResetCall 3 \<lparr>value = Undefined\<rparr>], Some (Thrown ''boom''))
   \<and> confirm sample_runtime (recorder input3_throws) array_group None []
     = ([ConfirmCall 1 \<lparr>value = Undefined, next = None\<rparr>,
         ConfirmCall 3 \<lparr>value = Undefined, next = None\<rparr>], Some (Thrown ''boom''))
   \<and> run_leaves (\<lambda>path i. Input_reset (recorder input3_throws) i \<lparr>value = Undefined\<rparr>) [([''0''], 1)] []
       = ([ResetCall 1 \<lparr>value = Undefined\<rparr>], None)
   \<and> Input_reset (recorder input3_throws) 3 \<lparr>value = Undefined\<rparr> [ResetCall 1 \<lparr>value = Undefined\<rparr>]
       = ([ResetCall 1 \<lparr>value = Undefined\<rparr>, ResetCall 3 \<lparr>value = Undefined\<rparr>], Some (Thrown ''boom''))
   \<and> (\<exists>i x t. Input_reset (recorder input3_throws) i \<lparr>value = x\<rparr> t
         = reset sample_runtime (recorder input3_throws) array_group None [])
   \<and> (\<exists>i x t. Input_confirm (recorder input3_throws) i \<lparr>value = x, next = None\<rparr> t
         = confirm sample_runtime (recorder input3_throws) array_group None [])
   \<and> transparent_of observed array_group 0
   \<and> world (fst (reset_action observed sample_runtime (recorder input3_throws) 0 array_group None
        (first_use [])))
       = [ResetCall 1 \<lparr>value = Undefined\<rparr>, ResetCall 3 \<lparr>value = Undefined\<rparr>]
   \<and> snd (reset_action observed sample_runtime (recorder input3_throws) 0 array_group None
        (first_use [])) = Some (Thrown ''boom'')"
proof -
  have tr: "transparent_of observed array_group 0"
    by (simp add: array_group_def)
  have st: "steady (structure [] array_group)"
    by (simp add: structure_def array_group_def)
  have l: "leaves [] (structure [] array_group) [] = [([''0''], 1), ([''1''], 3), ([''2''], 4)]"
    by (simp add: structure_def array_group_def dec_digits)
  have before: "run_leaves (\<lambda>path i. Input_reset (recorder input3_throws) i \<lparr>value = Undefined\<rparr>)
       [([''0''], 1)] [] = ([ResetCall 1 \<lparr>value = Undefined\<rparr>], None)"
    by (simp add: recorder_def input3_throws_def)
  have at: "Input_reset (recorder input3_throws) 3 \<lparr>value = Undefined\<rparr> [ResetCall 1 \<lparr>value = Undefined\<rparr>]
       = ([ResetCall 1 \<lparr>value = Undefined\<rparr>, ResetCall 3 \<lparr>value = Undefined\<rparr>], Some (Thrown ''boom''))"
    by (simp add: recorder_def input3_throws_def)
  note inst = batch_stops_at_exception
    [where R = sample_runtime and I = "recorder input3_throws" and d = array_group
      and g = array_group and args = None and s = "[]" and log = "[]" and throws = input3_throws
      and act = "\<lambda>path i. Input_reset (recorder input3_throws) i \<lparr>value = Undefined\<rparr>"
      and before = "[([''0''], 1)]" and t = "[ResetCall 1 \<lparr>value = Undefined\<rparr>]"
      and p = "[''1'']" and i = 3 and after = "[([''2''], 4)]"
      and t' = "[ResetCall 1 \<lparr>value = Undefined\<rparr>, ResetCall 3 \<lparr>value = Undefined\<rparr>]"
      and e = "Thrown ''boom''" and h = observed and n = 0 and st = "first_use []"]
  have abort: "run_leaves (\<lambda>path i. Input_reset (recorder input3_throws) i \<lparr>value = Undefined\<rparr>)
        ([([''0''], 1)] @ ([''1''], 3) # [([''2''], 4)]) []
      = ([ResetCall 1 \<lparr>value = Undefined\<rparr>, ResetCall 3 \<lparr>value = Undefined\<rparr>], Some (Thrown ''boom''))"
    using inst before at by blast
  have "reset sample_runtime (recorder input3_throws) array_group None []
      = run_leaves (\<lambda>path i. Input_reset (recorder input3_throws) i
            \<lparr>value = passed sample_runtime (args_value None) path\<rparr>)
          (leaves [] (structure [] array_group) []) []"
    using inst st by blast
  then have r: "reset sample_runtime (recorder input3_throws) array_group None []
     = ([ResetCall 1 \<lparr>value = Undefined\<rparr>, ResetCall 3 \<lparr>value = Undefined\<rparr>], Some (Thrown ''boom''))"
    using abort by (simp add: l args_value_def passed_falsy)
  have "confirm sample_runtime (recorder input3_throws) array_group None []
      = run_leaves (\<lambda>path i. Input_confirm (recorder input3_throws) i
            \<lparr>value = passed sample_runtime (args_value None) path, next = None\<rparr>)
          (leaves [] (structure [] array_group) []) []"
    using inst st by blast
  then have c: "confirm sample_runtime (recorder input3_throws) array_group None []
     = ([ConfirmCall 1 \<lparr>value = Undefined, next = None\<rparr>,
         ConfirmCall 3 \<lparr>value = Undefined, next = None\<rparr>], Some (Thrown ''boom''))"
    by (simp add: l args_value_def passed_falsy recorder_def input3_throws_def)
  have o1: "\<exists>i x t. Input_reset (recorder input3_throws) i \<lparr>value = x\<rparr> t
         = reset sample_runtime (recorder input3_throws) array_group None []"
    using inst by (simp add: r)
  have o2: "\<exists>i x t. Input_confirm (recorder input3_throws) i \<lparr>value = x, next = None\<rparr> t
         = confirm sample_runtime (recorder input3_throws) array_group None []"
    using inst by (simp add: c)
  have "world (fst (reset_action observed sample_runtime (recorder input3_throws) 0 array_group None
        (first_use [])))
      = fst (reset sample_runtime (recorder input3_throws) array_group None (world (first_use [])))
    \<and> snd (reset_action observed sample_runtime (recorder input3_throws) 0 array_group None
        (first_use []))
      = snd (reset sample_runtime (recorder input3_throws) array_group None (world (first_use [])))"
    using inst tr by blast
  then have act: "world (fst (reset_action observed sample_runtime (recorder input3_throws) 0
        array_group None (first_use [])))
       = [ResetCall 1 \<lparr>value = Undefined\<rparr>, ResetCall 3 \<lparr>value = Undefined\<rparr>]"
    "snd (reset_action observed sample_runtime (recorder input3_throws) 0 array_group None
        (first_use [])) = Some (Thrown ''boom'')"
    by (simp_all add: first_use_def r)
  show ?thesis using st l r c before at o1 o2 tr act by simp
qed

text \<open>
  C10. When the value given to \<open>resetShape\<close> or \<open>confirmShape\<close> at some position of
  the structure, a container included, is falsy (\<open>null\<close>, \<open>false\<close>, \<open>0\<close>, \<open>""\<close>,
  \<open>undefined\<close>), every input below that position is reset, respectively confirmed,
  with that value itself. In terms of the whole value tree \<open>w\<close> of a batch: when the
  value that the descent supplies at the path \<open>p\<close> is falsy, it supplies the same value
  at every path \<open>p @ q\<close> below.
\<close>

theorem falsy_value_reaches_every_leaf:
  "\<not> truthy v \<Longrightarrow>
     resetShape R I c v s = for_each_leaf (\<lambda>path i. Input_reset I i \<lparr>value = v\<rparr>) c [] s
     \<and> confirmShape R I c v s
        = for_each_leaf (\<lambda>path i. Input_confirm I i \<lparr>value = v, next = None\<rparr>) c [] s
     \<and> (v = passed R w p \<longrightarrow> passed R w (p @ q) = v)"
proof (intro conjI impI)
  assume falsy: "\<not> truthy v"
  show "resetShape R I c v s = for_each_leaf (\<lambda>path i. Input_reset I i \<lparr>value = v\<rparr>) c [] s"
    using resetShape_for_each_leaf [of R I c v "[]" s] falsy by (simp add: passed_falsy)
  show "confirmShape R I c v s
        = for_each_leaf (\<lambda>path i. Input_confirm I i \<lparr>value = v, next = None\<rparr>) c [] s"
    using confirmShape_for_each_leaf [of R I c v "[]" s] falsy by (simp add: passed_falsy)
  show "passed R w (p @ q) = v" if "v = passed R w p"
    using passed_falsy [of v R q] falsy that by (simp add: passed_append)
qed

text \<open>\<open>null\<close> at an object: both inputs below it receive \<open>null\<close>.\<close>

theorem falsy_value_reaches_every_leaf_witness:
  "\<not> truthy Null
   \<and> resetShape sample_runtime (recorder never) (CObject [(''c'', CInput 2), (''d'', CArray [CInput 3])]) Null []
       = ([ResetCall 2 \<lparr>value = Null\<rparr>, ResetCall 3 \<lparr>value = Null\<rparr>], None)
   \<and> confirmShape sample_runtime (recorder never) (CObject [(''c'', CInput 2), (''d'', CArray [CInput 3])]) Null []
       = ([ConfirmCall 2 \<lparr>value = Null, next = None\<rparr>, ConfirmCall 3 \<lparr>value = Null, next = None\<rparr>], None)
   \<and> Null = passed sample_runtime (VObj [(''b'', Null)]) [''b'']
   \<and> passed sample_runtime (VObj [(''b'', Null)]) ([''b''] @ [''d'', ''0'']) = Null"
  using falsy_value_reaches_every_leaf
    [of Null sample_runtime "recorder never" "CObject [(''c'', CInput 2), (''d'', CArray [CInput 3])]" "[]"
      "VObj [(''b'', Null)]" "[''b'']" "[''d'', ''0'']"]
  by (simp add: run_defs)

section \<open>The frame of reads and batches\<close>



end
